theory Spec2Isabelle
  imports Main "HOL-Library.Finite_Map"
begin

section \<open>The Forest of the snapshot store: data model\<close>

text \<open>
  The class \<open>ForestI\<close> holds two \<open>BTree\<close> instances (\<open>nodes\<close>, \<open>parents\<close>) and the
  caller's \<open>getChildren\<close>. Every mutating method clones the two trees, mutates the clones
  in place and allocates a new \<open>ForestI\<close>; \<open>mergeWith\<close> and \<open>equals\<close> depend on which
  instances two forests share. The embedding therefore keeps the objects in an explicit
  store: a reference is a natural number, \<open>BTree\<close> and \<open>ForestI\<close> objects live at
  references below \<open>nextRef\<close>, and every method takes the store and returns the store it
  leaves behind, also when it throws.

  Identifiers are any linearly ordered type (a \<open>BTree\<close> iterates in key order); payloads
  and parent data are opaque. A payload is a defined object: \<open>undefined\<close> is the absent
  value only, rendered by \<open>None\<close>.
\<close>

datatype error =
    DuplicateId              \<comment> \<open>can not add node with already existing id\<close>
  | NotExists                \<comment> \<open>can not replace node that does not exist\<close>
  | NotFound                 \<comment> \<open>ID not found\<close>
  | NotUnparented            \<comment> \<open>node must be un-parented to be deleted\<close>
  | NodeToDeleteMustExist    \<comment> \<open>node to delete must exist\<close>
  | MultiParented            \<comment> \<open>the item tree tree must not contain cycles or multi-parented nodes\<close>
  | NoMetadata               \<comment> \<open>each node must have associated metadata\<close>
  | CachedParentIncorrect    \<comment> \<open>cached parent is incorrect\<close>
  | CountMismatch            \<comment> \<open>the final assertion of assertConsistent, which has no message\<close>
  | CallerError string       \<comment> \<open>an error thrown by a caller-supplied merger\<close>

type_synonym ref = nat

record ('id, 'pd) ParentRecord =
  parentNode :: 'id
  parentData :: 'pd

record ('id, 't, 'pd) ForestI =
  nodes :: ref
  parents :: ref
  getChildren :: "'t \<Rightarrow> ('id \<times> 'pd) list"

record ('id, 't, 'pd) heap =
  nodeTrees :: "ref \<Rightarrow> ('id, 't) fmap"
  parentTrees :: "ref \<Rightarrow> ('id, ('id, 'pd) ParentRecord) fmap"
  forests :: "ref \<Rightarrow> ('id, 't, 'pd) ForestI"
  nextRef :: ref
  mergerCalls :: "('t \<times> 't \<times> 'id) list"


definition emptyHeap :: "('id, 't, 'pd) heap" where
  "emptyHeap = \<lparr>nodeTrees = (\<lambda>_. fmempty), parentTrees = (\<lambda>_. fmempty),
     forests = (\<lambda>_. \<lparr>nodes = 0, parents = 0, getChildren = (\<lambda>_. [])\<rparr>),
     nextRef = 0, mergerCalls = []\<rparr>"

section \<open>The ordered map\<close>

text \<open>
  \<open>BTree\<close> is the third-party package \<open>sorted-btree\<close>: an ordered map with
  \<open>get\<close>, \<open>has\<close>, \<open>set\<close>, \<open>delete\<close>, \<open>size\<close>, \<open>entries\<close> (in key order) and
  \<open>clone\<close> (a new instance with the same entries). Its contents are a finite map; the
  instance is the reference.
\<close>

definition bt_size :: "('k, 'v) fmap \<Rightarrow> nat" where
  "bt_size m = fcard (fmdom m)"

definition bt_entries :: "('k::linorder, 'v) fmap \<Rightarrow> ('k \<times> 'v) list" where
  "bt_entries m = map (\<lambda>k. (k, the (fmlookup m k))) (sorted_list_of_fset (fmdom m))"

definition newNodeTree :: "('id, 't, 'pd) heap \<Rightarrow> ref \<times> ('id, 't, 'pd) heap" where
  "newNodeTree h =
     (nextRef h, h\<lparr>nodeTrees := (nodeTrees h)(nextRef h := fmempty), nextRef := Suc (nextRef h)\<rparr>)"

definition newParentTree :: "('id, 't, 'pd) heap \<Rightarrow> ref \<times> ('id, 't, 'pd) heap" where
  "newParentTree h =
     (nextRef h, h\<lparr>parentTrees := (parentTrees h)(nextRef h := fmempty), nextRef := Suc (nextRef h)\<rparr>)"

definition cloneN :: "('id, 't, 'pd) heap \<Rightarrow> ref \<Rightarrow> ref \<times> ('id, 't, 'pd) heap" where
  "cloneN h r =
     (nextRef h, h\<lparr>nodeTrees := (nodeTrees h)(nextRef h := nodeTrees h r), nextRef := Suc (nextRef h)\<rparr>)"

definition cloneP :: "('id, 't, 'pd) heap \<Rightarrow> ref \<Rightarrow> ref \<times> ('id, 't, 'pd) heap" where
  "cloneP h r =
     (nextRef h, h\<lparr>parentTrees := (parentTrees h)(nextRef h := parentTrees h r), nextRef := Suc (nextRef h)\<rparr>)"

definition getN :: "('id, 't, 'pd) heap \<Rightarrow> ref \<Rightarrow> 'id \<Rightarrow> 't option" where
  "getN h r k = fmlookup (nodeTrees h r) k"

definition getP :: "('id, 't, 'pd) heap \<Rightarrow> ref \<Rightarrow> 'id \<Rightarrow> ('id, 'pd) ParentRecord option" where
  "getP h r k = fmlookup (parentTrees h r) k"

definition hasN :: "('id, 't, 'pd) heap \<Rightarrow> ref \<Rightarrow> 'id \<Rightarrow> bool" where
  "hasN h r k = (k |\<in>| fmdom (nodeTrees h r))"

definition setN :: "('id, 't, 'pd) heap \<Rightarrow> ref \<Rightarrow> 'id \<Rightarrow> 't \<Rightarrow> ('id, 't, 'pd) heap" where
  "setN h r k v = h\<lparr>nodeTrees := (nodeTrees h)(r := fmupd k v (nodeTrees h r))\<rparr>"

definition setP ::
  "('id, 't, 'pd) heap \<Rightarrow> ref \<Rightarrow> 'id \<Rightarrow> ('id, 'pd) ParentRecord \<Rightarrow> ('id, 't, 'pd) heap" where
  "setP h r k v = h\<lparr>parentTrees := (parentTrees h)(r := fmupd k v (parentTrees h r))\<rparr>"

definition deleteN :: "('id, 't, 'pd) heap \<Rightarrow> ref \<Rightarrow> 'id \<Rightarrow> ('id, 't, 'pd) heap" where
  "deleteN h r k = h\<lparr>nodeTrees := (nodeTrees h)(r := fmdrop k (nodeTrees h r))\<rparr>"

definition deleteP :: "('id, 't, 'pd) heap \<Rightarrow> ref \<Rightarrow> 'id \<Rightarrow> ('id, 't, 'pd) heap" where
  "deleteP h r k = h\<lparr>parentTrees := (parentTrees h)(r := fmdrop k (parentTrees h r))\<rparr>"

definition sizeN :: "('id, 't, 'pd) heap \<Rightarrow> ref \<Rightarrow> nat" where
  "sizeN h r = bt_size (nodeTrees h r)"

definition sizeP :: "('id, 't, 'pd) heap \<Rightarrow> ref \<Rightarrow> nat" where
  "sizeP h r = bt_size (parentTrees h r)"

definition entriesN :: "('id::linorder, 't, 'pd) heap \<Rightarrow> ref \<Rightarrow> ('id \<times> 't) list" where
  "entriesN h r = bt_entries (nodeTrees h r)"

section \<open>Construction and queries\<close>

definition new_ForestI ::
  "('id, 't, 'pd) heap \<Rightarrow> ('id, 't, 'pd) ForestI \<Rightarrow> ref \<times> ('id, 't, 'pd) heap" where
  "new_ForestI h data =
     (nextRef h, h\<lparr>forests := (forests h)(nextRef h := data), nextRef := Suc (nextRef h)\<rparr>)"

definition createForest ::
  "('id, 't, 'pd) heap \<Rightarrow> ('t \<Rightarrow> ('id \<times> 'pd) list) \<Rightarrow> ref \<times> ('id, 't, 'pd) heap" where
  "createForest h gc =
     (let (n, h1) = newNodeTree h;
          (p, h2) = newParentTree h1
      in new_ForestI h2 \<lparr>nodes = n, parents = p, getChildren = gc\<rparr>)"

definition iterate :: "('id::linorder, 't, 'pd) heap \<Rightarrow> ref \<Rightarrow> ('id \<times> 't) list" where
  "iterate h this = entriesN h (nodes (forests h this))"

definition size_forest :: "('id, 't, 'pd) heap \<Rightarrow> ref \<Rightarrow> nat" where
  "size_forest h this = sizeN h (nodes (forests h this))"

definition tryGet :: "('id, 't, 'pd) heap \<Rightarrow> ref \<Rightarrow> 'id \<Rightarrow> 't option" where
  "tryGet h this nid = getN h (nodes (forests h this)) nid"


definition tryGetParent ::
  "('id, 't, 'pd) heap \<Rightarrow> ref \<Rightarrow> 'id \<Rightarrow> ('id, 'pd) ParentRecord option" where
  "tryGetParent h this nid = getP h (parents (forests h this)) nid"

definition getParent ::
  "('id, 't, 'pd) heap \<Rightarrow> ref \<Rightarrow> 'id \<Rightarrow> error + ('id, 'pd) ParentRecord" where
  "getParent h this nid = (case tryGetParent h this nid of Some r \<Rightarrow> Inr r | None \<Rightarrow> Inl NotFound)"

section \<open>Mutating methods\<close>

text \<open>
  Modelled from the spec: \<open>assert\<close> and \<open>fail\<close> of \<open>./Common\<close> are not among the
  sources. \<open>fail msg\<close> throws; \<open>assert c msg\<close> throws when \<open>c\<close> does not hold. In
  \<open>assert(old, ...)\<close> of \<open>replace\<close> the condition is the payload found, or
  \<open>undefined\<close>: payloads are objects, which count as true, so the assertion throws
  exactly when the id has no node. A method that throws returns \<open>Inl\<close> of the error and
  the store as it is at the throw. The loops over \<open>getChildren\<close> that set and delete
  parent records are \<open>setChildren\<close> and \<open>unsetChildren\<close>.
\<close>

definition setChildren ::
  "('id, 't, 'pd) heap \<Rightarrow> ref \<Rightarrow> 'id \<Rightarrow> ('id \<times> 'pd) list \<Rightarrow> ('id, 't, 'pd) heap" where
  "setChildren h mutableParents nid children =
     fold (\<lambda>(childId, pd) h'. setP h' mutableParents childId \<lparr>parentNode = nid, parentData = pd\<rparr>)
       children h"

definition unsetChildren ::
  "('id, 't, 'pd) heap \<Rightarrow> ref \<Rightarrow> ('id \<times> 'pd) list \<Rightarrow> ('id, 't, 'pd) heap" where
  "unsetChildren h mutableParents children =
     fold (\<lambda>(child, _) h'. deleteP h' mutableParents child) children h"

definition add ::
  "('id, 't, 'pd) heap \<Rightarrow> ref \<Rightarrow> 'id \<Rightarrow> 't \<Rightarrow> (error + ref) \<times> ('id, 't, 'pd) heap" where
  "add h this nid node =
     (let self = forests h this in
      if hasN h (nodes self) nid then (Inl DuplicateId, h)
      else
        let (mutableNodes, h1) = cloneN h (nodes self);
            h2 = setN h1 mutableNodes nid node;
            (mutableParents, h3) = cloneP h2 (parents self);
            h4 = setChildren h3 mutableParents nid (getChildren self node);
            (forest, h5) = new_ForestI h4
               \<lparr>nodes = mutableNodes, parents = mutableParents, getChildren = getChildren self\<rparr>
        in (Inr forest, h5))"

definition replace ::
  "('id, 't, 'pd) heap \<Rightarrow> ref \<Rightarrow> 'id \<Rightarrow> 't \<Rightarrow> (error + ref) \<times> ('id, 't, 'pd) heap" where
  "replace h this nid node =
     (let self = forests h this in
      case getN h (nodes self) nid of
        None \<Rightarrow> (Inl NotExists, h)
      | Some old \<Rightarrow>
          let (mutableNodes, h1) = cloneN h (nodes self);
              h2 = setN h1 mutableNodes nid node;
              (mutableParents, h3) = cloneP h2 (parents self);
              h4 = unsetChildren h3 mutableParents (getChildren self old);
              h5 = setChildren h4 mutableParents nid (getChildren self node);
              (forest, h6) = new_ForestI h5
                 \<lparr>nodes = mutableNodes, parents = mutableParents, getChildren = getChildren self\<rparr>
          in (Inr forest, h6))"

fun mergeWith_loop ::
  "('id, 't, 'pd) heap \<Rightarrow> ref \<Rightarrow> ('id \<times> 't) list \<Rightarrow> ('t \<Rightarrow> 't \<Rightarrow> 'id \<Rightarrow> error + 't)
     \<Rightarrow> (error + ref) \<times> ('id, 't, 'pd) heap" where
  "mergeWith_loop h forest [] merger = (Inr forest, h)"
| "mergeWith_loop h forest ((nid, node) # rest) merger =
     (case getN h (nodes (forests h forest)) nid of
        Some currentNode \<Rightarrow>
          (let h1 = h\<lparr>mergerCalls := mergerCalls h @ [(currentNode, node, nid)]\<rparr> in
           case merger currentNode node nid of
             Inl e \<Rightarrow> (Inl e, h1)
           | Inr merged \<Rightarrow>
               (case replace h1 forest nid merged of
                  (Inl e, h2) \<Rightarrow> (Inl e, h2)
                | (Inr forest', h2) \<Rightarrow> mergeWith_loop h2 forest' rest merger))
      | None \<Rightarrow>
          (case add h forest nid node of
             (Inl e, h2) \<Rightarrow> (Inl e, h2)
           | (Inr forest', h2) \<Rightarrow> mergeWith_loop h2 forest' rest merger))"

definition mergeWith ::
  "('id, 't, 'pd) heap \<Rightarrow> ref \<Rightarrow> ('id \<times> 't) list \<Rightarrow> ('t \<Rightarrow> 't \<Rightarrow> 'id \<Rightarrow> error + 't)
     \<Rightarrow> (error + ref) \<times> ('id, 't, 'pd) heap" where
  "mergeWith h this nodes_in merger =
     (let self = forests h this;
          (forest, h1) = new_ForestI h
             \<lparr>nodes = nodes self, parents = parents self, getChildren = getChildren self\<rparr>
      in mergeWith_loop h1 forest nodes_in merger)"

definition addAll ::
  "('id, 't, 'pd) heap \<Rightarrow> ref \<Rightarrow> ('id \<times> 't) list \<Rightarrow> (error + ref) \<times> ('id, 't, 'pd) heap" where
  "addAll h this nodes_in = mergeWith h this nodes_in (\<lambda>_ _ _. Inl DuplicateId)"

function deleteRecursive ::
  "ref \<Rightarrow> ('id, 't, 'pd) heap \<Rightarrow> ref \<Rightarrow> ref \<Rightarrow> 'id \<Rightarrow> bool \<Rightarrow> (error + unit) \<times> ('id, 't, 'pd) heap"
and deleteRecursive_children ::
  "ref \<Rightarrow> ('id, 't, 'pd) heap \<Rightarrow> ref \<Rightarrow> ref \<Rightarrow> ('id \<times> 'pd) list \<Rightarrow> bool
     \<Rightarrow> (error + unit) \<times> ('id, 't, 'pd) heap" where
  "deleteRecursive this h mutableNodes mutableParents nid deleteChildren =
     (if getP h mutableParents nid \<noteq> None then (Inl NotUnparented, h)
      else case getN h mutableNodes nid of
        None \<Rightarrow> (Inl NodeToDeleteMustExist, h)
      | Some node \<Rightarrow>
          deleteRecursive_children this (deleteN h mutableNodes nid) mutableNodes mutableParents
            (getChildren (forests h this) node) deleteChildren)"
| "deleteRecursive_children this h mutableNodes mutableParents [] deleteChildren = (Inr (), h)"
| "deleteRecursive_children this h mutableNodes mutableParents ((child, pd) # rest) deleteChildren =
     (let h1 = deleteP h mutableParents child in
      if deleteChildren then
        (case deleteRecursive this h1 mutableNodes mutableParents child deleteChildren of
           (Inl e, h2) \<Rightarrow> (Inl e, h2)
         | (Inr u, h2) \<Rightarrow>
             deleteRecursive_children this h2 mutableNodes mutableParents rest deleteChildren)
      else deleteRecursive_children this h1 mutableNodes mutableParents rest deleteChildren)"
  by pat_completeness auto

lemma deleteRecursive_size_le:
  "deleteRecursive_deleteRecursive_children_dom (Inl (this, h, mN, mP, nid, dc)) \<Longrightarrow>
     sizeN (snd (deleteRecursive this h mN mP nid dc)) mN \<le> sizeN h mN"
  "deleteRecursive_deleteRecursive_children_dom (Inr (this, h, mN, mP, cs, dc)) \<Longrightarrow>
     sizeN (snd (deleteRecursive_children this h mN mP cs dc)) mN \<le> sizeN h mN"
proof (induction this h mN mP nid dc and this h mN mP cs dc
    rule: deleteRecursive_deleteRecursive_children.pinduct)
  case (1 this h mN mP nid dc)
  have drop: "sizeN (deleteN h mN nid) mN \<le> sizeN h mN"
    by (simp add: sizeN_def deleteN_def bt_size_def fcard_fminus1_le)
  show ?case
  proof (cases "getP h mP nid \<noteq> None")
    case True
    then show ?thesis using "1.hyps" by (simp add: deleteRecursive.psimps)
  next
    case False
    show ?thesis
    proof (cases "getN h mN nid")
      case None
      then show ?thesis using False "1.hyps" by (simp add: deleteRecursive.psimps)
    next
      case (Some node)
      then show ?thesis
        using False "1.hyps" "1.IH"[OF False Some] drop by (simp add: deleteRecursive.psimps)
    qed
  qed
next
  case (2 this h mN mP dc)
  then show ?case by (simp add: deleteRecursive_children.psimps)
next
  case (3 this h mN mP child pd rest dc)
  let ?h1 = "deleteP h mP child"
  have same: "sizeN ?h1 mN = sizeN h mN"
    by (simp add: sizeN_def deleteP_def)
  show ?case
  proof (cases dc)
    case False
    then show ?thesis
      using "3.hyps" "3.IH"(3)[OF refl False] same by (simp add: deleteRecursive_children.psimps)
  next
    case True
    obtain r h2 where rec: "deleteRecursive this ?h1 mN mP child dc = (r, h2)"
      by (cases "deleteRecursive this ?h1 mN mP child dc")
    have le1: "sizeN h2 mN \<le> sizeN h mN"
      using "3.IH"(1)[OF refl True] rec same by simp
    show ?thesis
    proof (cases r)
      case (Inl e)
      then show ?thesis
        using "3.hyps" True rec le1 by (simp add: deleteRecursive_children.psimps)
    next
      case (Inr u)
      have "sizeN (snd (deleteRecursive_children this h2 mN mP rest dc)) mN \<le> sizeN h2 mN"
        using "3.IH"(2)[OF refl True rec[symmetric] Inr] .
      then show ?thesis
        using "3.hyps" True rec Inr le1 by (simp add: deleteRecursive_children.psimps)
    qed
  qed
qed

termination deleteRecursive
proof (relation "inv_image (less_than <*lex*> less_than)
    (\<lambda>x. case x of
       Inl (this, h, mN, mP, nid, dc) \<Rightarrow> (sizeN h mN, 0)
     | Inr (this, h, mN, mP, cs, dc) \<Rightarrow> (sizeN h mN, Suc (length cs)))", goal_cases)
  case 1
  then show ?case by (intro wf_inv_image wf_lex_prod wf_less_than)
next
  case (2 this h mN mP nid dc node)
  then have "nid |\<in>| fmdom (nodeTrees h mN)"
    by (simp add: getN_def fmdomI)
  then have "fcard (fmdom (nodeTrees h mN) |-| {|nid|}) < fcard (fmdom (nodeTrees h mN))"
    by (rule fcard_fminus1_less)
  then show ?case
    by (simp add: sizeN_def deleteN_def bt_size_def del: fcard_fminus_fsingleton)
next
  case (3 this h mN mP child pd rest dc h1)
  then show ?case by (simp add: sizeN_def deleteP_def)
next
  case (4 this h mN mP child pd rest dc h1 r h2 u)
  have "snd (deleteRecursive this h1 mN mP child dc) = h2"
    using 4(3) by (metis snd_conv)
  then have "sizeN h2 mN \<le> sizeN h1 mN"
    using deleteRecursive_size_le(1)[OF 4(5)] by simp
  moreover have "sizeN h1 mN = sizeN h mN"
    using 4(1) by (simp add: sizeN_def deleteP_def)
  ultimately show ?case by auto
next
  case (5 this h mN mP child pd rest dc h1)
  then show ?case by (simp add: sizeN_def deleteP_def)
qed


fun deleteAll_loop ::
  "ref \<Rightarrow> ('id, 't, 'pd) heap \<Rightarrow> ref \<Rightarrow> ref \<Rightarrow> 'id list \<Rightarrow> bool
     \<Rightarrow> (error + unit) \<times> ('id, 't, 'pd) heap" where
  "deleteAll_loop this h mutableNodes mutableParents [] deleteChildren = (Inr (), h)"
| "deleteAll_loop this h mutableNodes mutableParents (nid # ids) deleteChildren =
     (case deleteRecursive this h mutableNodes mutableParents nid deleteChildren of
        (Inl e, h1) \<Rightarrow> (Inl e, h1)
      | (Inr u, h1) \<Rightarrow> deleteAll_loop this h1 mutableNodes mutableParents ids deleteChildren)"

definition deleteAll ::
  "('id, 't, 'pd) heap \<Rightarrow> ref \<Rightarrow> 'id list \<Rightarrow> bool \<Rightarrow> (error + ref) \<times> ('id, 't, 'pd) heap" where
  "deleteAll h this ids deleteChildren =
     (let self = forests h this;
          (mutableNodes, h1) = cloneN h (nodes self);
          (mutableParents, h2) = cloneP h1 (parents self)
      in case deleteAll_loop this h2 mutableNodes mutableParents ids deleteChildren of
           (Inl e, h3) \<Rightarrow> (Inl e, h3)
         | (Inr u, h3) \<Rightarrow>
             (let (forest, h4) = new_ForestI h3
                    \<lparr>nodes = mutableNodes, parents = mutableParents, getChildren = getChildren self\<rparr>
              in (Inr forest, h4)))"

definition delete ::
  "('id, 't, 'pd) heap \<Rightarrow> ref \<Rightarrow> 'id \<Rightarrow> bool \<Rightarrow> (error + ref) \<times> ('id, 't, 'pd) heap" where
  "delete h this nid deleteChildren = deleteAll h this [nid] deleteChildren"

section \<open>The consistency check\<close>

fun assertConsistent_children ::
  "('id, 't, 'pd) heap \<Rightarrow> ref \<Rightarrow> 'id \<Rightarrow> 'id fset \<Rightarrow> ('id \<times> 'pd) list \<Rightarrow> error + 'id fset" where
  "assertConsistent_children h this k checkedChildren [] = Inr checkedChildren"
| "assertConsistent_children h this k checkedChildren ((nid, pd) # rest) =
     (if nid |\<in>| checkedChildren then Inl MultiParented
      else case getP h (parents (forests h this)) nid of
        None \<Rightarrow> Inl NoMetadata
      | Some r \<Rightarrow>
          if parentNode r \<noteq> k then Inl CachedParentIncorrect
          else assertConsistent_children h this k (finsert nid checkedChildren) rest)"

fun assertConsistent_nodes ::
  "('id, 't, 'pd) heap \<Rightarrow> ref \<Rightarrow> 'id fset \<Rightarrow> ('id \<times> 't) list \<Rightarrow> error + 'id fset" where
  "assertConsistent_nodes h this checkedChildren [] = Inr checkedChildren"
| "assertConsistent_nodes h this checkedChildren ((k, v) # rest) =
     (case assertConsistent_children h this k checkedChildren (getChildren (forests h this) v) of
        Inl e \<Rightarrow> Inl e
      | Inr checkedChildren' \<Rightarrow> assertConsistent_nodes h this checkedChildren' rest)"

definition assertConsistent :: "('id::linorder, 't, 'pd) heap \<Rightarrow> ref \<Rightarrow> error + unit" where
  "assertConsistent h this =
     (let self = forests h this in
      case assertConsistent_nodes h this {||} (entriesN h (nodes self)) of
        Inl e \<Rightarrow> Inl e
      | Inr checkedChildren \<Rightarrow>
          let numberOfRoots = int (sizeN h (nodes self)) - int (sizeP h (parents self)) in
          if int (fcard checkedChildren) + numberOfRoots = int (sizeN h (nodes self))
          then Inr () else Inl CountMismatch)"

section \<open>Comparison\<close>







section \<open>Reading a forest in the store\<close>

text \<open>
  The contents of the two trees of a forest and its projection, read through the store;
  \<open>valid\<close> says the forest and its trees are allocated, and \<open>extends h h'\<close> that \<open>h'\<close>
  keeps every object of \<open>h\<close> as it is. \<open>observably_unchanged\<close> compares what the
  queries return of a forest in two stores. \<open>setAll\<close> and \<open>dropAll\<close> are what the loops
  over a payload's children do to the contents of the parents tree, \<open>cloned\<close> is the store
  after the two clones \<open>deleteAll\<close> starts with, and \<open>claimedChildren\<close> lists the child
  ids the nodes of a forest yield, in iteration order.
\<close>

definition nodesOf :: "('id, 't, 'pd) heap \<Rightarrow> ref \<Rightarrow> ('id, 't) fmap" where
  "nodesOf h F = nodeTrees h (nodes (forests h F))"

definition parentsOf :: "('id, 't, 'pd) heap \<Rightarrow> ref \<Rightarrow> ('id, ('id, 'pd) ParentRecord) fmap" where
  "parentsOf h F = parentTrees h (parents (forests h F))"

definition childrenOf :: "('id, 't, 'pd) heap \<Rightarrow> ref \<Rightarrow> 't \<Rightarrow> ('id \<times> 'pd) list" where
  "childrenOf h F = getChildren (forests h F)"

definition valid :: "('id, 't, 'pd) heap \<Rightarrow> ref \<Rightarrow> bool" where
  "valid h F = (F < nextRef h \<and> nodes (forests h F) < nextRef h \<and> parents (forests h F) < nextRef h)"

definition extends :: "('id, 't, 'pd) heap \<Rightarrow> ('id, 't, 'pd) heap \<Rightarrow> bool" where
  "extends h h' = (nextRef h \<le> nextRef h' \<and>
     (\<forall>r. r < nextRef h \<longrightarrow>
        nodeTrees h' r = nodeTrees h r \<and> parentTrees h' r = parentTrees h r \<and> forests h' r = forests h r))"

definition observably_unchanged :: "('id::linorder, 't, 'pd) heap \<Rightarrow> ('id, 't, 'pd) heap \<Rightarrow> ref \<Rightarrow> bool" where
  "observably_unchanged h h' F =
     (size_forest h' F = size_forest h F \<and> (\<forall>k. tryGet h' F k = tryGet h F k) \<and>
      (\<forall>k. tryGetParent h' F k = tryGetParent h F k) \<and> iterate h' F = iterate h F)"

definition setAll ::
  "'id \<Rightarrow> ('id \<times> 'pd) list \<Rightarrow> ('id, ('id, 'pd) ParentRecord) fmap \<Rightarrow> ('id, ('id, 'pd) ParentRecord) fmap" where
  "setAll i cs ps = fold (\<lambda>(c, d) m. fmupd c \<lparr>parentNode = i, parentData = d\<rparr> m) cs ps"

definition dropAll :: "('id \<times> 'pd) list \<Rightarrow> ('id, 'v) fmap \<Rightarrow> ('id, 'v) fmap" where
  "dropAll cs ps = fold (\<lambda>(c, d) m. fmdrop c m) cs ps"

definition cloned :: "('id, 't, 'pd) heap \<Rightarrow> ref \<Rightarrow> ('id, 't, 'pd) heap" where
  "cloned h F = snd (cloneP (snd (cloneN h (nodes (forests h F)))) (parents (forests h F)))"

definition claimedChildren :: "('id::linorder, 't, 'pd) heap \<Rightarrow> ref \<Rightarrow> 'id list" where
  "claimedChildren h F = concat (map (\<lambda>(k, v). map fst (childrenOf h F v)) (iterate h F))"

section \<open>The fold of mergeWith, in the words of the specification\<close>

text \<open>
  The specification describes \<open>mergeWith\<close> as a left fold: on an id that the accumulating
  forest already has, call \<open>merger(oldValue, newValue, id)\<close> and \<open>replace\<close> with the
  result; otherwise \<open>add\<close>. \<open>merge_step\<close> is that step, with the accumulator either a
  forest or the error that ended the fold. It is compared with the loop of the source below.
\<close>

definition merge_step ::
  "('t \<Rightarrow> 't \<Rightarrow> 'id \<Rightarrow> error + 't) \<Rightarrow> (error + ref) \<times> ('id, 't, 'pd) heap \<Rightarrow> 'id \<times> 't
     \<Rightarrow> (error + ref) \<times> ('id, 't, 'pd) heap" where
  "merge_step merger acc entry =
     (case acc of
        (Inl e, h) \<Rightarrow> (Inl e, h)
      | (Inr forest, h) \<Rightarrow>
          (case tryGet h forest (fst entry) of
             None \<Rightarrow> add h forest (fst entry) (snd entry)
           | Some oldValue \<Rightarrow>
               (let h1 = h\<lparr>mergerCalls := mergerCalls h @ [(oldValue, snd entry, fst entry)]\<rparr> in
                case merger oldValue (snd entry) (fst entry) of
                  Inl e \<Rightarrow> (Inl e, h1)
                | Inr resolved \<Rightarrow> replace h1 forest (fst entry) resolved)))"

section \<open>What a deletion removes\<close>

text \<open>
  For a set \<open>D\<close> of ids, \<open>claimed gc ns D\<close> are the ids yielded as children by the nodes
  of \<open>D\<close>, and \<open>closed_under\<close> says \<open>D\<close> contains them. \<open>same_but\<close> relates two stores
  that differ at most in one nodes tree and one parents tree; \<open>del_result\<close> says that the
  nodes of \<open>D\<close> have been removed from the first, and the parent records of the ids of
  \<open>C\<close> and of the children of \<open>D\<close> from the second.
\<close>

definition claimed :: "('t \<Rightarrow> ('id \<times> 'pd) list) \<Rightarrow> ('id, 't) fmap \<Rightarrow> 'id set \<Rightarrow> 'id set" where
  "claimed gc ns D = {c. \<exists>k \<in> D. \<exists>v. fmlookup ns k = Some v \<and> c \<in> fst ` set (gc v)}"

definition closed_under :: "('t \<Rightarrow> ('id \<times> 'pd) list) \<Rightarrow> ('id, 't) fmap \<Rightarrow> 'id set \<Rightarrow> bool" where
  "closed_under gc ns D = (\<forall>k \<in> D. \<forall>v. fmlookup ns k = Some v \<longrightarrow> fst ` set (gc v) \<subseteq> D)"

definition same_but :: "('id, 't, 'pd) heap \<Rightarrow> ('id, 't, 'pd) heap \<Rightarrow> ref \<Rightarrow> ref \<Rightarrow> bool" where
  "same_but h h' mN mP =
     (forests h' = forests h \<and> nextRef h' = nextRef h \<and> mergerCalls h' = mergerCalls h \<and>
      (\<forall>a. a \<noteq> mN \<longrightarrow> nodeTrees h' a = nodeTrees h a) \<and>
      (\<forall>a. a \<noteq> mP \<longrightarrow> parentTrees h' a = parentTrees h a))"

definition del_result ::
  "ref \<Rightarrow> ('id, 't, 'pd) heap \<Rightarrow> ('id, 't, 'pd) heap \<Rightarrow> ref \<Rightarrow> ref \<Rightarrow> 'id set \<Rightarrow> 'id set \<Rightarrow> bool" where
  "del_result this h h' mN mP D C =
     ((\<forall>k \<in> D. fmlookup (nodeTrees h mN) k \<noteq> None) \<and>
      (\<forall>k. fmlookup (nodeTrees h' mN) k = (if k \<in> D then None else fmlookup (nodeTrees h mN) k)) \<and>
      (\<forall>c. fmlookup (parentTrees h' mP) c =
         (if c \<in> C \<or> c \<in> claimed (getChildren (forests h this)) (nodeTrees h mN) D then None
          else fmlookup (parentTrees h mP) c)))"

section \<open>Well-behaved projections and the forests the methods build\<close>

text \<open>
  \<open>noSharedChild\<close>: no id is yielded as a child by two different nodes of the forest.
  \<open>noRepeatedChild\<close>: no node of the forest yields the same child id twice.
  \<open>reachable W\<close> are the forests built from a created forest by the mutating methods, in
  a store that may grow in between by other calls, where \<open>W\<close> holds of every forest that
  \<open>add\<close> and \<open>replace\<close> return and of every forest that \<open>addAll\<close> and \<open>mergeWith\<close>
  pass through (the results on the prefixes of the input). \<open>consistent\<close> is the invariant
  these forests keep: the two conditions above, a parent record only for claimed children,
  and for every claimed child a record that names the claiming node.
\<close>

definition noSharedChild :: "('id::linorder, 't, 'pd) heap \<Rightarrow> ref \<Rightarrow> bool" where
  "noSharedChild h F =
     (\<forall>(k1, v1) \<in> set (iterate h F). \<forall>(k2, v2) \<in> set (iterate h F).
        k1 \<noteq> k2 \<longrightarrow> set (map fst (childrenOf h F v1)) \<inter> set (map fst (childrenOf h F v2)) = {})"

definition noRepeatedChild :: "('id::linorder, 't, 'pd) heap \<Rightarrow> ref \<Rightarrow> bool" where
  "noRepeatedChild h F = (\<forall>(k, v) \<in> set (iterate h F). distinct (map fst (childrenOf h F v)))"

definition wellBehaved :: "('id::linorder, 't, 'pd) heap \<Rightarrow> ref \<Rightarrow> bool" where
  "wellBehaved h F = (noSharedChild h F \<and> noRepeatedChild h F)"

inductive reachable ::
  "(('id::linorder, 't, 'pd) heap \<Rightarrow> ref \<Rightarrow> bool) \<Rightarrow> ('id, 't, 'pd) heap \<Rightarrow> ref \<Rightarrow> bool"
  for W :: "('id::linorder, 't, 'pd) heap \<Rightarrow> ref \<Rightarrow> bool" where
  r_create: "createForest h0 gc = (F, h) \<Longrightarrow> reachable W h F"
| r_later: "reachable W h F \<Longrightarrow> extends h h' \<Longrightarrow> reachable W h' F"
| r_add: "reachable W h F \<Longrightarrow> add h F i n = (Inr G, h') \<Longrightarrow> W h' G \<Longrightarrow> reachable W h' G"
| r_addAll: "reachable W h F \<Longrightarrow> addAll h F xs = (Inr G, h') \<Longrightarrow>
     (\<forall>j G' h''. addAll h F (take j xs) = (Inr G', h'') \<longrightarrow> W h'' G') \<Longrightarrow> reachable W h' G"
| r_mergeWith: "reachable W h F \<Longrightarrow> mergeWith h F xs m = (Inr G, h') \<Longrightarrow>
     (\<forall>j G' h''. mergeWith h F (take j xs) m = (Inr G', h'') \<longrightarrow> W h'' G') \<Longrightarrow> reachable W h' G"
| r_replace: "reachable W h F \<Longrightarrow> replace h F i n = (Inr G, h') \<Longrightarrow> W h' G \<Longrightarrow> reachable W h' G"
| r_delete: "reachable W h F \<Longrightarrow> delete h F i dc = (Inr G, h') \<Longrightarrow> reachable W h' G"
| r_deleteAll: "reachable W h F \<Longrightarrow> deleteAll h F ids dc = (Inr G, h') \<Longrightarrow> reachable W h' G"

definition cons_view ::
  "('id \<Rightarrow> 't option) \<Rightarrow> ('id \<Rightarrow> ('id, 'pd) ParentRecord option) \<Rightarrow> ('t \<Rightarrow> ('id \<times> 'pd) list) \<Rightarrow> bool" where
  "cons_view ns ps gc =
     ((\<forall>k v. ns k = Some v \<longrightarrow> distinct (map fst (gc v))) \<and>
      (\<forall>k1 v1 k2 v2. ns k1 = Some v1 \<and> ns k2 = Some v2 \<and> k1 \<noteq> k2 \<longrightarrow>
         set (map fst (gc v1)) \<inter> set (map fst (gc v2)) = {}) \<and>
      (\<forall>c. ps c \<noteq> None \<longrightarrow> (\<exists>k v. ns k = Some v \<and> c \<in> set (map fst (gc v)))) \<and>
      (\<forall>k v c. ns k = Some v \<and> c \<in> set (map fst (gc v)) \<longrightarrow> (\<exists>r. ps c = Some r \<and> parentNode r = k)))"

definition consistent :: "('id, 't, 'pd) heap \<Rightarrow> ref \<Rightarrow> bool" where
  "consistent h F = cons_view (tryGet h F) (tryGetParent h F) (childrenOf h F)"

section \<open>A concrete store\<close>

text \<open>
  For the concrete instances below: identifiers and parent data are natural numbers, and a
  payload is the list of the children it claims, so \<open>getChildren\<close> returns the payload
  itself. \<open>store0\<close> is the store after \<open>createForest\<close> on the empty store and
  \<open>forest0\<close> the empty forest it returns. \<open>forest1\<close> in \<open>store1\<close> has the node \<open>1\<close>,
  which claims \<open>2\<close>; \<open>forest3\<close> in \<open>store3\<close> has the chain \<open>1\<close>, \<open>2\<close>, \<open>3\<close>.
  \<open>store4\<close> holds two more forests on the nodes of \<open>forest1\<close> with an empty parents tree:
  \<open>7\<close> on a clone of the nodes tree, \<open>8\<close> on the same instance. \<open>store5\<close> holds the
  forest \<open>6\<close> with no nodes and the parents tree of \<open>forest1\<close>. \<open>store6\<close> is the store
  after adding to \<open>forest0\<close> a node that yields the child \<open>2\<close> twice, as forest \<open>5\<close>.
\<close>

definition claimsOwn :: "(nat \<times> nat) list \<Rightarrow> (nat \<times> nat) list" where
  "claimsOwn v = v"


definition forest0 :: ref where
  "forest0 = fst (createForest (emptyHeap :: (nat, (nat \<times> nat) list, nat) heap) claimsOwn)"

definition store0 :: "(nat, (nat \<times> nat) list, nat) heap" where
  "store0 = snd (createForest emptyHeap claimsOwn)"

definition store1 :: "(nat, (nat \<times> nat) list, nat) heap" where
  "store1 = snd (add store0 forest0 1 [(2, 10)])"

definition forest1 :: ref where
  "forest1 = 5"

definition store3 :: "(nat, (nat \<times> nat) list, nat) heap" where
  "store3 = snd (add (snd (add store1 forest1 2 [(3, 20)])) 8 3 [])"

definition forest3 :: ref where
  "forest3 = 11"


definition store5 :: "(nat, (nat \<times> nat) list, nat) heap" where
  "store5 = snd (new_ForestI store1 \<lparr>nodes = 0, parents = 4, getChildren = claimsOwn\<rparr>)"

definition store6 :: "(nat, (nat \<times> nat) list, nat) heap" where
  "store6 = snd (add store0 forest0 1 [(2, 10), (2, 20)])"

section \<open>Properties of the store and of the methods\<close>

lemma extends_refl: "extends h h"
  by (simp add: extends_def)

lemma extends_trans: "extends h1 h2 \<Longrightarrow> extends h2 h3 \<Longrightarrow> extends h1 h3"
  by (auto simp: extends_def)

lemma extends_valid: "extends h h' \<Longrightarrow> valid h F \<Longrightarrow> valid h' F"
  by (auto simp: extends_def valid_def)

lemma extends_nodesOf: "extends h h' \<Longrightarrow> valid h F \<Longrightarrow> nodesOf h' F = nodesOf h F"
  by (auto simp: extends_def valid_def nodesOf_def)

lemma extends_parentsOf: "extends h h' \<Longrightarrow> valid h F \<Longrightarrow> parentsOf h' F = parentsOf h F"
  by (auto simp: extends_def valid_def parentsOf_def)

lemma extends_childrenOf: "extends h h' \<Longrightarrow> valid h F \<Longrightarrow> childrenOf h' F = childrenOf h F"
  by (auto simp: extends_def valid_def childrenOf_def)

lemma setAll_Nil: "setAll i [] ps = ps"
  by (simp add: setAll_def)

lemma setAll_Cons: "setAll i ((c, d) # cs) ps = setAll i cs (fmupd c \<lparr>parentNode = i, parentData = d\<rparr> ps)"
  by (simp add: setAll_def)

lemma lookup_setAll:
  "fmlookup (setAll i cs ps) c =
     (case map_of (rev cs) c of Some d \<Rightarrow> Some \<lparr>parentNode = i, parentData = d\<rparr> | None \<Rightarrow> fmlookup ps c)"
proof (induction cs arbitrary: ps)
  case Nil
  then show ?case by (simp add: setAll_Nil)
next
  case (Cons a cs)
  obtain c' d' where a: "a = (c', d')" by (cases a)
  show ?case
    unfolding a setAll_Cons Cons.IH
    by (auto simp: map_add_def split: option.splits)
qed

lemma dropAll_Nil: "dropAll [] ps = ps"
  by (simp add: dropAll_def)

lemma dropAll_Cons: "dropAll ((c, d) # cs) ps = dropAll cs (fmdrop c ps)"
  by (simp add: dropAll_def)

lemma lookup_dropAll:
  "fmlookup (dropAll cs ps) c = (if c \<in> fst ` set cs then None else fmlookup ps c)"
proof (induction cs arbitrary: ps)
  case Nil
  then show ?case by (simp add: dropAll_Nil)
next
  case (Cons a cs)
  obtain c' d' where a: "a = (c', d')" by (cases a)
  show ?case
    unfolding a dropAll_Cons Cons.IH by auto
qed

lemma setChildren_fields:
  "parentTrees (setChildren h r i cs) = (parentTrees h)(r := setAll i cs (parentTrees h r))"
  "nodeTrees (setChildren h r i cs) = nodeTrees h"
  "forests (setChildren h r i cs) = forests h"
  "nextRef (setChildren h r i cs) = nextRef h"
  "mergerCalls (setChildren h r i cs) = mergerCalls h"
  unfolding setChildren_def setAll_def
  by (induction cs arbitrary: h; simp add: setP_def split: prod.splits)+

lemma unsetChildren_fields:
  "parentTrees (unsetChildren h r cs) = (parentTrees h)(r := dropAll cs (parentTrees h r))"
  "nodeTrees (unsetChildren h r cs) = nodeTrees h"
  "forests (unsetChildren h r cs) = forests h"
  "nextRef (unsetChildren h r cs) = nextRef h"
  "mergerCalls (unsetChildren h r cs) = mergerCalls h"
  unfolding unsetChildren_def dropAll_def
  by (induction cs arbitrary: h; simp add: deleteP_def split: prod.splits)+

lemma add_fails: "tryGet h F i \<noteq> None \<Longrightarrow> add h F i n = (Inl DuplicateId, h)"
  by (auto simp: add_def tryGet_def getN_def hasN_def Let_def fmdom_notD)

lemma add_result:
  assumes "tryGet h F i = None"
  shows "\<exists>G h'. add h F i n = (Inr G, h')"
  using assms
  by (auto simp: add_def tryGet_def getN_def hasN_def Let_def cloneN_def cloneP_def new_ForestI_def
      dest: fmdom_notI)

lemma add_Inr:
  assumes "add h F i n = (Inr G, h')"
  shows "tryGet h F i = None"
    and "nodesOf h' G = fmupd i n (nodesOf h F)"
    and "parentsOf h' G = setAll i (childrenOf h F n) (parentsOf h F)"
    and "childrenOf h' G = childrenOf h F"
    and "valid h' G"
    and "mergerCalls h' = mergerCalls h"
  using assms
  by (auto simp: add_def tryGet_def getN_def hasN_def Let_def cloneN_def cloneP_def new_ForestI_def
      nodesOf_def parentsOf_def childrenOf_def valid_def setN_def setChildren_fields
      split: if_splits dest: fmdom_notD)

lemma add_extends: "add h F i n = (r, h') \<Longrightarrow> extends h h'"
  by (auto simp: add_def Let_def cloneN_def cloneP_def new_ForestI_def extends_def setN_def
      setChildren_fields split: if_splits)



lemma replace_Inr:
  assumes "replace h F i n = (Inr G, h')"
  shows "\<exists>old. tryGet h F i = Some old \<and>
           parentsOf h' G = setAll i (childrenOf h F n) (dropAll (childrenOf h F old) (parentsOf h F))"
    and "nodesOf h' G = fmupd i n (nodesOf h F)"
    and "childrenOf h' G = childrenOf h F"
    and "valid h' G"
    and "mergerCalls h' = mergerCalls h"
  using assms
  by (auto simp: replace_def tryGet_def Let_def cloneN_def cloneP_def new_ForestI_def
      nodesOf_def parentsOf_def childrenOf_def valid_def setN_def setChildren_fields
      unsetChildren_fields split: option.splits)



lemma replace_extends: "replace h F i n = (r, h') \<Longrightarrow> extends h h'"
  by (auto simp: replace_def Let_def cloneN_def cloneP_def new_ForestI_def extends_def setN_def
      setChildren_fields unsetChildren_fields split: option.splits)

lemma createForest_result:
  assumes "createForest h gc = (F, h')"
  shows "nodesOf h' F = fmempty" and "parentsOf h' F = fmempty" and "childrenOf h' F = gc"
    and "valid h' F" and "extends h h'" and "mergerCalls h' = mergerCalls h"
  using assms
  by (auto simp: createForest_def newNodeTree_def newParentTree_def new_ForestI_def Let_def
      nodesOf_def parentsOf_def childrenOf_def valid_def extends_def)

lemma mergeWith_loop_extends:
  "mergeWith_loop h F xs m = (r, h') \<Longrightarrow> extends h h'"
proof (induction h F xs m arbitrary: r h' rule: mergeWith_loop.induct)
  case (1 h forest merger)
  then show ?case by (simp add: extends_refl)
next
  case (2 h forest nid node rest merger)
  show ?case
  proof (cases "getN h (nodes (forests h forest)) nid")
    case None
    obtain r1 h1 where a: "add h forest nid node = (r1, h1)" by (cases "add h forest nid node")
    have e1: "extends h h1" using a by (rule add_extends)
    show ?thesis
    proof (cases r1)
      case (Inl e)
      then show ?thesis using "2.prems" None a e1 by simp
    next
      case (Inr G)
      have "extends h1 h'"
        using "2.IH"(1)[OF None a[symmetric] Inr] "2.prems" None a Inr by simp
      then show ?thesis using e1 extends_trans by blast
    qed
  next
    case (Some cur)
    let ?h1 = "h\<lparr>mergerCalls := mergerCalls h @ [(cur, node, nid)]\<rparr>"
    have e0: "extends h ?h1" by (simp add: extends_def)
    show ?thesis
    proof (cases "merger cur node nid")
      case (Inl e)
      then show ?thesis using "2.prems" Some e0 by (simp add: Let_def)
    next
      case mInr: (Inr merged)
      obtain r1 h2 where a: "replace ?h1 forest nid merged = (r1, h2)"
        by (cases "replace ?h1 forest nid merged")
      have e1: "extends ?h1 h2" using a by (rule replace_extends)
      show ?thesis
      proof (cases r1)
        case (Inl e)
        then show ?thesis using "2.prems" Some mInr a e0 e1 extends_trans by (auto simp: Let_def)
      next
        case (Inr G)
        have "extends h2 h'"
          using "2.IH"(2)[OF Some refl mInr a[symmetric] Inr] "2.prems" Some mInr a Inr
          by (simp add: Let_def)
        then show ?thesis using e0 e1 extends_trans by blast
      qed
    qed
  qed
qed

lemma mergeWith_extends: "mergeWith h F xs m = (r, h') \<Longrightarrow> extends h h'"
proof -
  assume a: "mergeWith h F xs m = (r, h')"
  let ?h1 = "snd (new_ForestI h \<lparr>nodes = nodes (forests h F), parents = parents (forests h F),
      getChildren = getChildren (forests h F)\<rparr>)"
  have "extends h ?h1" by (simp add: new_ForestI_def extends_def)
  moreover have "extends ?h1 h'"
    using a mergeWith_loop_extends[of ?h1 "nextRef h" xs m r h']
    by (simp add: mergeWith_def Let_def new_ForestI_def)
  ultimately show ?thesis using extends_trans by blast
qed

lemmas store_defs =
  forest0_def store0_def claimsOwn_def emptyHeap_def createForest_def newNodeTree_def newParentTree_def new_ForestI_def
  cloneN_def cloneP_def setN_def setP_def deleteN_def deleteP_def getN_def getP_def hasN_def
  sizeN_def sizeP_def entriesN_def bt_size_def bt_entries_def
  tryGet_def tryGetParent_def size_forest_def iterate_def
  add_def replace_def setChildren_def unsetChildren_def Let_def

lemma forest0_eq: "forest0 = 2" by (simp add: store_defs)

lemma bt_size_fmupd: "i |\<notin>| fmdom m \<Longrightarrow> bt_size (fmupd i n m) = Suc (bt_size m)"
  by (simp add: bt_size_def fcard_finsert_disjoint)

lemma map_of_rev_distinct:
  "distinct (map fst cs) \<Longrightarrow> (c, d) \<in> set cs \<Longrightarrow> map_of (rev cs) c = Some d"
  by (simp add: distinct_rev rev_map[symmetric])

lemma map_of_rev_dom: "c \<in> fst ` set cs \<Longrightarrow> \<exists>d. map_of (rev cs) c = Some d"
  by (metis (no_types, lifting) domD dom_map_of_conv_image_fst set_rev)

section \<open>add\<close>

text \<open>
  Claim C2, as amended. For a forest \<open>F\<close> of the store and an id \<open>i\<close> with no node in
  \<open>F\<close>, \<open>add\<close> returns a new forest \<open>G\<close> in which \<open>i\<close> has the payload \<open>n\<close> and
  whose size is one more; every child id that \<open>getChildren n\<close> yields has the parent
  record \<open>{parentNode: i, parentData}\<close> where \<open>parentData\<close> is that of the last pair
  yielded for this child (so of every pair, when the child ids yielded are distinct);
  \<open>F\<close> reads as before: \<open>i\<close> is still absent, size, nodes and parent records are the
  same. When \<open>i\<close> has a node, \<open>add\<close> throws the duplicate-id error and leaves the
  store as it is.
\<close>

theorem add_fresh_id:
  assumes "valid h F"
  shows "(tryGet h F i = None \<longrightarrow>
           (\<exists>G h'. add h F i n = (Inr G, h') \<and>
              tryGet h' G i = Some n \<and>
              size_forest h' G = size_forest h F + 1 \<and>
              (\<forall>c \<in> fst ` set (childrenOf h F n). \<exists>d. map_of (rev (childrenOf h F n)) c = Some d \<and>
                 tryGetParent h' G c = Some \<lparr>parentNode = i, parentData = d\<rparr>) \<and>
              (distinct (map fst (childrenOf h F n)) \<longrightarrow>
                 (\<forall>(c, d) \<in> set (childrenOf h F n).
                    tryGetParent h' G c = Some \<lparr>parentNode = i, parentData = d\<rparr>)) \<and>
              tryGet h' F i = None \<and> size_forest h' F = size_forest h F \<and>
              (\<forall>j. tryGet h' F j = tryGet h F j) \<and>
              (\<forall>j. tryGetParent h' F j = tryGetParent h F j))) \<and>
         (tryGet h F i \<noteq> None \<longrightarrow> add h F i n = (Inl DuplicateId, h))"
proof (intro conjI impI)
  assume absent: "tryGet h F i = None"
  obtain G h' where a: "add h F i n = (Inr G, h')"
    using add_result[OF absent] by blast
  note r = add_Inr[OF a]
  have ext: "extends h h'" using a by (rule add_extends)
  have nF: "nodesOf h' F = nodesOf h F" using ext assms by (rule extends_nodesOf)
  have pF: "parentsOf h' F = parentsOf h F" using ext assms by (rule extends_parentsOf)
  have tg: "\<And>h F j. tryGet h F j = fmlookup (nodesOf h F) j"
    by (simp add: tryGet_def getN_def nodesOf_def)
  have tp: "\<And>h F j. tryGetParent h F j = fmlookup (parentsOf h F) j"
    by (simp add: tryGetParent_def getP_def parentsOf_def)
  have sz: "\<And>h F. size_forest h F = bt_size (nodesOf h F)"
    by (simp add: size_forest_def sizeN_def nodesOf_def)
  have notin: "i |\<notin>| fmdom (nodesOf h F)"
    using absent by (simp add: tg fmdom_notI)
  have last: "\<forall>c \<in> fst ` set (childrenOf h F n). \<exists>d. map_of (rev (childrenOf h F n)) c = Some d \<and>
      tryGetParent h' G c = Some \<lparr>parentNode = i, parentData = d\<rparr>"
  proof
    fix c assume "c \<in> fst ` set (childrenOf h F n)"
    then obtain d where d: "map_of (rev (childrenOf h F n)) c = Some d"
      using map_of_rev_dom by fastforce
    then show "\<exists>d. map_of (rev (childrenOf h F n)) c = Some d \<and>
      tryGetParent h' G c = Some \<lparr>parentNode = i, parentData = d\<rparr>"
      by (simp add: tp r(3) lookup_setAll)
  qed
  have dist: "distinct (map fst (childrenOf h F n)) \<longrightarrow>
      (\<forall>(c, d) \<in> set (childrenOf h F n). tryGetParent h' G c = Some \<lparr>parentNode = i, parentData = d\<rparr>)"
    by (auto simp: tp r(3) lookup_setAll map_of_rev_distinct)
  show "\<exists>G h'. add h F i n = (Inr G, h') \<and>
              tryGet h' G i = Some n \<and>
              size_forest h' G = size_forest h F + 1 \<and>
              (\<forall>c \<in> fst ` set (childrenOf h F n). \<exists>d. map_of (rev (childrenOf h F n)) c = Some d \<and>
                 tryGetParent h' G c = Some \<lparr>parentNode = i, parentData = d\<rparr>) \<and>
              (distinct (map fst (childrenOf h F n)) \<longrightarrow>
                 (\<forall>(c, d) \<in> set (childrenOf h F n).
                    tryGetParent h' G c = Some \<lparr>parentNode = i, parentData = d\<rparr>)) \<and>
              tryGet h' F i = None \<and> size_forest h' F = size_forest h F \<and>
              (\<forall>j. tryGet h' F j = tryGet h F j) \<and>
              (\<forall>j. tryGetParent h' F j = tryGetParent h F j)"
    apply (rule exI[of _ G], rule exI[of _ h'])
    using a last dist absent notin
    by (simp add: tg tp sz r(2) nF pF bt_size_fmupd)
next
  assume "tryGet h F i \<noteq> None"
  then show "add h F i n = (Inl DuplicateId, h)" by (rule add_fails)
qed

lemma valid_store0: "valid store0 forest0"
  by (simp add: valid_def store_defs)

text \<open>
  The claim as stated asks the record of every yielded pair: a payload that yields the
  child \<open>2\<close> twice, with data \<open>10\<close> and then \<open>20\<close>, leaves the record with \<open>20\<close>.
\<close>

theorem add_twice_claimed_child:
  "tryGet store0 forest0 1 = None \<and>
   fst (add store0 forest0 1 [(2, 10), (2, 20)]) = Inr 5 \<and>
   (2, 10) \<in> set (childrenOf store0 forest0 [(2, 10), (2, 20)]) \<and>
   tryGetParent (snd (add store0 forest0 1 [(2, 10), (2, 20)])) 5 2 = Some \<lparr>parentNode = 1, parentData = 20\<rparr> \<and>
   tryGetParent (snd (add store0 forest0 1 [(2, 10), (2, 20)])) 5 2 \<noteq> Some \<lparr>parentNode = 1, parentData = 10\<rparr>"
  by (simp add: store_defs childrenOf_def)

theorem add_fresh_id_witness:
  "valid store0 forest0 \<and> tryGet store0 forest0 1 = None \<and>
   (\<exists>G h'. add store0 forest0 1 [(2, 10), (3, 20)] = (Inr G, h') \<and> tryGet h' G 1 = Some [(2, 10), (3, 20)] \<and>
      size_forest h' G = size_forest store0 forest0 + 1 \<and>
      tryGetParent h' G 2 = Some \<lparr>parentNode = 1, parentData = 10\<rparr> \<and>
      tryGetParent h' G 3 = Some \<lparr>parentNode = 1, parentData = 20\<rparr> \<and>
      tryGet h' forest0 1 = None \<and> size_forest h' forest0 = size_forest store0 forest0)"
proof -
  have v: "valid store0 forest0" by (rule valid_store0)
  have a: "tryGet store0 forest0 1 = None" by (simp add: store_defs)
  have c: "childrenOf store0 forest0 [(2, 10), (3, 20)] = [(2, 10), (3, 20)]"
    by (simp add: childrenOf_def store_defs)
  show ?thesis
    using v a add_fresh_id[OF v, of 1 "[(2, 10), (3, 20)]"] unfolding c
    by (simp; blast)
qed

section \<open>replace\<close>

lemma tryGet_nodesOf: "tryGet h F j = fmlookup (nodesOf h F) j"
  by (simp add: tryGet_def getN_def nodesOf_def)

lemma tryGetParent_parentsOf: "tryGetParent h F j = fmlookup (parentsOf h F) j"
  by (simp add: tryGetParent_def getP_def parentsOf_def)

lemma size_forest_nodesOf: "size_forest h F = bt_size (nodesOf h F)"
  by (simp add: size_forest_def sizeN_def nodesOf_def)

lemma iterate_nodesOf: "iterate h F = bt_entries (nodesOf h F)"
  by (simp add: iterate_def entriesN_def nodesOf_def)





section \<open>delete and deleteAll\<close>

lemma same_but_refl: "same_but h h mN mP"
  by (simp add: same_but_def)

lemma same_but_trans: "same_but h h1 mN mP \<Longrightarrow> same_but h1 h2 mN mP \<Longrightarrow> same_but h h2 mN mP"
  by (simp add: same_but_def)

lemma same_but_deleteN: "same_but h (deleteN h mN k) mN mP"
  by (simp add: same_but_def deleteN_def)

lemma same_but_deleteP: "same_but h (deleteP h mP k) mN mP"
  by (simp add: same_but_def deleteP_def)

lemma deleteRecursive_same_but:
  "deleteRecursive this h mN mP i dc = (r, h') \<Longrightarrow> same_but h h' mN mP"
  "deleteRecursive_children this h mN mP cs dc = (r, h') \<Longrightarrow> same_but h h' mN mP"
proof (induction this h mN mP i dc and this h mN mP cs dc arbitrary: r h' and r h'
    rule: deleteRecursive_deleteRecursive_children.induct)
  case (1 this h mN mP nid dc)
  show ?case
  proof (cases "getP h mP nid \<noteq> None")
    case True
    then show ?thesis using "1.prems" by (simp add: same_but_refl)
  next
    case False
    show ?thesis
    proof (cases "getN h mN nid")
      case None
      then show ?thesis using False "1.prems" by (simp add: same_but_refl)
    next
      case (Some node)
      have "same_but (deleteN h mN nid) h' mN mP"
        using "1.IH"[OF False Some] "1.prems" False Some by simp
      then show ?thesis by (rule same_but_trans[OF same_but_deleteN])
    qed
  qed
next
  case (2 this h mN mP dc)
  then show ?case by (simp add: same_but_refl)
next
  case (3 this h mN mP child pd rest dc)
  let ?h1 = "deleteP h mP child"
  have s1: "same_but h ?h1 mN mP" by (rule same_but_deleteP)
  show ?case
  proof (cases dc)
    case False
    have "same_but ?h1 h' mN mP"
      using "3.IH"(3)[OF refl False] "3.prems" False by simp
    then show ?thesis by (rule same_but_trans[OF s1])
  next
    case True
    obtain r1 h2 where rec: "deleteRecursive this ?h1 mN mP child dc = (r1, h2)"
      by (cases "deleteRecursive this ?h1 mN mP child dc")
    have s2: "same_but ?h1 h2 mN mP"
      using "3.IH"(1)[OF refl True rec] .
    show ?thesis
    proof (cases r1)
      case (Inl e)
      then have "h' = h2" using "3.prems" True rec by simp
      then show ?thesis using same_but_trans[OF s1 s2] by simp
    next
      case (Inr u)
      have "same_but h2 h' mN mP"
        using "3.IH"(2)[OF refl True rec[symmetric] Inr] "3.prems" True rec Inr by simp
      then show ?thesis by (rule same_but_trans[OF same_but_trans[OF s1 s2]])
    qed
  qed
qed

lemma claimed_empty: "claimed gc ns {} = {}"
  by (simp add: claimed_def)

lemma claimed_Un: "claimed gc ns (A \<union> B) = claimed gc ns A \<union> claimed gc ns B"
  by (auto simp: claimed_def)

lemma claimed_single: "fmlookup ns k = Some v \<Longrightarrow> claimed gc ns {k} = fst ` set (gc v)"
  by (auto simp: claimed_def)

lemma claimed_agree:
  "\<forall>k \<in> D. fmlookup ns' k = fmlookup ns k \<Longrightarrow> claimed gc ns' D = claimed gc ns D"
  by (auto simp: claimed_def)

lemma closed_under_agree:
  "\<forall>k \<in> D. fmlookup ns' k = fmlookup ns k \<Longrightarrow> closed_under gc ns' D = closed_under gc ns D"
  by (auto simp: closed_under_def)

lemma closed_under_Un:
  assumes "closed_under gc ns A" and "closed_under gc ns B"
  shows "closed_under gc ns (A \<union> B)"
  unfolding closed_under_def
proof (intro ballI allI impI)
  fix k v
  assume k: "k \<in> A \<union> B" and v: "fmlookup ns k = Some v"
  show "fst ` set (gc v) \<subseteq> A \<union> B"
  proof (cases "k \<in> A")
    case True
    then have "fst ` set (gc v) \<subseteq> A"
      using assms(1) v by (simp add: closed_under_def)
    then show ?thesis by (rule le_supI1)
  next
    case False
    then have "k \<in> B" using k by simp
    then have "fst ` set (gc v) \<subseteq> B"
      using assms(2) v by (simp add: closed_under_def)
    then show ?thesis by (rule le_supI2)
  qed
qed

lemma deleteRecursive_Inr:
  "deleteRecursive this h mN mP i dc = (Inr u, h') \<Longrightarrow>
     \<exists>D. del_result this h h' mN mP D {} \<and> i \<in> D \<and> (\<not> dc \<longrightarrow> D = {i}) \<and>
         (dc \<longrightarrow> closed_under (getChildren (forests h this)) (nodeTrees h mN) D)"
  "deleteRecursive_children this h mN mP cs dc = (Inr u, h') \<Longrightarrow>
     \<exists>D. del_result this h h' mN mP D (fst ` set cs) \<and> (\<not> dc \<longrightarrow> D = {}) \<and>
         (dc \<longrightarrow> fst ` set cs \<subseteq> D \<and> closed_under (getChildren (forests h this)) (nodeTrees h mN) D)"
proof (induction this h mN mP i dc and this h mN mP cs dc arbitrary: u h' and u h'
    rule: deleteRecursive_deleteRecursive_children.induct)
  case (1 this h mN mP nid dc)
  let ?gc = "getChildren (forests h this)"
  let ?ns = "nodeTrees h mN"
  let ?h1 = "deleteN h mN nid"
  have unp: "\<not> getP h mP nid \<noteq> None"
    using "1.prems" by (auto split: if_splits)
  then obtain node where node: "getN h mN nid = Some node"
    using "1.prems" by (cases "getN h mN nid") auto
  have loop: "deleteRecursive_children this ?h1 mN mP (?gc node) dc = (Inr u, h')"
    using "1.prems" unp node by simp
  have f1: "forests ?h1 = forests h" "parentTrees ?h1 = parentTrees h"
    and n1: "\<And>k. fmlookup (nodeTrees ?h1 mN) k = (if k = nid then None else fmlookup ?ns k)"
    by (auto simp: deleteN_def)
  obtain D1 where D1: "del_result this ?h1 h' mN mP D1 (fst ` set (?gc node))"
      "\<not> dc \<longrightarrow> D1 = {}"
      "dc \<longrightarrow> fst ` set (?gc node) \<subseteq> D1 \<and> closed_under ?gc (nodeTrees ?h1 mN) D1"
    using "1.IH"[OF unp node loop] unfolding f1 by blast
  have lk: "fmlookup ?ns nid = Some node" using node by (simp add: getN_def)
  have in1: "\<forall>k \<in> D1. fmlookup (nodeTrees ?h1 mN) k \<noteq> None"
    using D1(1) by (simp add: del_result_def)
  then have notin: "nid \<notin> D1" and agree: "\<forall>k \<in> D1. fmlookup (nodeTrees ?h1 mN) k = fmlookup ?ns k"
    using n1 by auto
  have cl: "claimed ?gc ?ns (insert nid D1) = fst ` set (?gc node) \<union> claimed ?gc (nodeTrees ?h1 mN) D1"
    using claimed_Un[of ?gc ?ns "{nid}" D1] claimed_single[OF lk, of ?gc] claimed_agree[OF agree, of ?gc]
    by simp
  have "del_result this h h' mN mP (insert nid D1) {}"
    unfolding del_result_def cl
    using D1(1) lk agree in1 unfolding del_result_def f1 n1
    by auto
  moreover have "dc \<longrightarrow> closed_under ?gc ?ns (insert nid D1)"
  proof
    assume dc
    then have a: "fst ` set (?gc node) \<subseteq> D1" and b: "closed_under ?gc ?ns D1"
      using D1(3) closed_under_agree[OF agree, of ?gc] by auto
    show "closed_under ?gc ?ns (insert nid D1)"
      using a b lk unfolding closed_under_def by (simp add: subset_iff)
  qed
  ultimately show ?case using D1(2) by (intro exI[of _ "insert nid D1"]) auto
next
  case (2 this h mN mP dc)
  then show ?case
    by (intro exI[of _ "{}"]) (simp add: del_result_def claimed_empty closed_under_def)
next
  case (3 this h mN mP child pd rest dc)
  let ?gc = "getChildren (forests h this)"
  let ?ns = "nodeTrees h mN"
  let ?h1 = "deleteP h mP child"
  have f1: "forests ?h1 = forests h" "nodeTrees ?h1 = nodeTrees h"
    and p1: "\<And>c. fmlookup (parentTrees ?h1 mP) c = (if c = child then None else fmlookup (parentTrees h mP) c)"
    by (auto simp: deleteP_def)
  show ?case
  proof (cases dc)
    case False
    have loop: "deleteRecursive_children this ?h1 mN mP rest dc = (Inr u, h')"
      using "3.prems" False by simp
    obtain D where D: "del_result this ?h1 h' mN mP D (fst ` set rest)" "D = {}"
      using "3.IH"(3)[OF refl False loop] False by auto
    have "del_result this h h' mN mP {} (fst ` set ((child, pd) # rest))"
      using D unfolding del_result_def f1 p1 by (auto simp: claimed_empty)
    then show ?thesis using False by (intro exI[of _ "{}"]) simp
  next
    case True
    obtain r1 h2 where rec: "deleteRecursive this ?h1 mN mP child dc = (r1, h2)"
      by (cases "deleteRecursive this ?h1 mN mP child dc")
    obtain u1 where r1: "r1 = Inr u1"
      using "3.prems" True rec by (cases r1) auto
    have loop: "deleteRecursive_children this h2 mN mP rest dc = (Inr u, h')"
      using "3.prems" True rec r1 by simp
    have sb: "same_but ?h1 h2 mN mP" using rec by (rule deleteRecursive_same_but)
    have gc2: "forests h2 = forests h"
      using sb f1 by (simp add: same_but_def)
    obtain D1 where D1: "del_result this ?h1 h2 mN mP D1 {}" "child \<in> D1" "closed_under ?gc ?ns D1"
      using "3.IH"(1)[OF refl True] rec r1 True unfolding f1 by blast
    obtain D2 where D2: "del_result this h2 h' mN mP D2 (fst ` set rest)" "fst ` set rest \<subseteq> D2"
        "closed_under ?gc (nodeTrees h2 mN) D2"
      using "3.IH"(2)[OF refl True rec[symmetric] r1 loop] True unfolding gc2 by blast
    have n2: "\<And>k. fmlookup (nodeTrees h2 mN) k = (if k \<in> D1 then None else fmlookup ?ns k)"
      and in1: "\<forall>k \<in> D1. fmlookup ?ns k \<noteq> None"
      and p2: "\<And>c. fmlookup (parentTrees h2 mP) c =
          (if c = child \<or> c \<in> claimed ?gc ?ns D1 then None else fmlookup (parentTrees h mP) c)"
      using D1(1) unfolding del_result_def f1 p1 by auto
    have in2: "\<forall>k \<in> D2. fmlookup (nodeTrees h2 mN) k \<noteq> None"
      using D2(1) by (simp add: del_result_def)
    then have agree: "\<forall>k \<in> D2. fmlookup (nodeTrees h2 mN) k = fmlookup ?ns k"
      and disj: "\<forall>k \<in> D2. k \<notin> D1"
      using n2 by auto
    have cl2: "claimed ?gc (nodeTrees h2 mN) D2 = claimed ?gc ?ns D2"
      by (rule claimed_agree[OF agree])
    have "del_result this h h' mN mP (D1 \<union> D2) (fst ` set ((child, pd) # rest))"
      unfolding del_result_def claimed_Un
      using D2(1) in1 in2 agree unfolding del_result_def gc2 cl2 n2 p2
      by auto
    moreover have "closed_under ?gc ?ns (D1 \<union> D2)"
    proof -
      have "closed_under ?gc ?ns D2"
        using D2(3) closed_under_agree[OF agree, of ?gc] by simp
      then show ?thesis by (rule closed_under_Un[OF D1(3)])
    qed
    moreover have "fst ` set ((child, pd) # rest) \<subseteq> D1 \<union> D2"
      using D1(2) D2(2) by auto
    ultimately show ?thesis using True by (intro exI[of _ "D1 \<union> D2"]) simp
  qed
qed

lemma del_result_compose:
  assumes a: "del_result this h h1 mN mP D1 C1"
    and f: "forests h1 = forests h"
    and b: "del_result this h1 h' mN mP D2 C2"
  shows "del_result this h h' mN mP (D1 \<union> D2) (C1 \<union> C2)"
    and "\<forall>k \<in> D2. fmlookup (nodeTrees h1 mN) k = fmlookup (nodeTrees h mN) k"
proof -
  let ?gc = "getChildren (forests h this)"
  let ?ns = "nodeTrees h mN"
  have n1: "\<And>k. fmlookup (nodeTrees h1 mN) k = (if k \<in> D1 then None else fmlookup ?ns k)"
    and in1: "\<forall>k \<in> D1. fmlookup ?ns k \<noteq> None"
    and p1: "\<And>c. fmlookup (parentTrees h1 mP) c =
          (if c \<in> C1 \<or> c \<in> claimed ?gc ?ns D1 then None else fmlookup (parentTrees h mP) c)"
    using a unfolding del_result_def by auto
  have in2: "\<forall>k \<in> D2. fmlookup (nodeTrees h1 mN) k \<noteq> None"
    using b by (simp add: del_result_def)
  then show agree: "\<forall>k \<in> D2. fmlookup (nodeTrees h1 mN) k = fmlookup ?ns k"
    using n1 by auto
  have cl2: "claimed ?gc (nodeTrees h1 mN) D2 = claimed ?gc ?ns D2"
    by (rule claimed_agree[OF agree])
  show "del_result this h h' mN mP (D1 \<union> D2) (C1 \<union> C2)"
    unfolding del_result_def claimed_Un
    using b in1 in2 agree unfolding del_result_def f cl2 n1 p1
    by auto
qed

lemma deleteAll_loop_same_but:
  "deleteAll_loop this h mN mP ids dc = (r, h') \<Longrightarrow> same_but h h' mN mP"
proof (induction ids arbitrary: h)
  case Nil
  then show ?case by (simp add: same_but_refl)
next
  case (Cons i ids)
  obtain r1 h1 where rec: "deleteRecursive this h mN mP i dc = (r1, h1)"
    by (cases "deleteRecursive this h mN mP i dc")
  have s1: "same_but h h1 mN mP" using rec by (rule deleteRecursive_same_but)
  show ?case
  proof (cases r1)
    case (Inl e)
    then have "h' = h1" using Cons.prems rec by simp
    then show ?thesis using s1 by simp
  next
    case (Inr u)
    then have "deleteAll_loop this h1 mN mP ids dc = (r, h')"
      using Cons.prems rec by simp
    then have "same_but h1 h' mN mP" by (rule Cons.IH)
    then show ?thesis by (rule same_but_trans[OF s1])
  qed
qed

lemma deleteAll_loop_Inr:
  "deleteAll_loop this h mN mP ids dc = (Inr u, h') \<Longrightarrow>
     \<exists>D. del_result this h h' mN mP D {} \<and> set ids \<subseteq> D \<and> (\<not> dc \<longrightarrow> D = set ids) \<and>
         (dc \<longrightarrow> closed_under (getChildren (forests h this)) (nodeTrees h mN) D)"
proof (induction ids arbitrary: h)
  case Nil
  then show ?case
    by (intro exI[of _ "{}"]) (simp add: del_result_def claimed_empty closed_under_def)
next
  case (Cons i ids)
  let ?gc = "getChildren (forests h this)"
  obtain r1 h1 where rec: "deleteRecursive this h mN mP i dc = (r1, h1)"
    by (cases "deleteRecursive this h mN mP i dc")
  obtain u1 where r1: "r1 = Inr u1"
    using Cons.prems rec by (cases r1) auto
  have loop: "deleteAll_loop this h1 mN mP ids dc = (Inr u, h')"
    using Cons.prems rec r1 by simp
  have f1: "forests h1 = forests h"
    using deleteRecursive_same_but(1)[OF rec] by (simp add: same_but_def)
  obtain D1 where D1: "del_result this h h1 mN mP D1 {}" "i \<in> D1" "\<not> dc \<longrightarrow> D1 = {i}"
      "dc \<longrightarrow> closed_under ?gc (nodeTrees h mN) D1"
    using deleteRecursive_Inr(1)[of this h mN mP i dc u1 h1] rec r1 by blast
  obtain D2 where D2: "del_result this h1 h' mN mP D2 {}" "set ids \<subseteq> D2" "\<not> dc \<longrightarrow> D2 = set ids"
      "dc \<longrightarrow> closed_under ?gc (nodeTrees h1 mN) D2"
    using Cons.IH[OF loop] unfolding f1 by blast
  note c = del_result_compose[OF D1(1) f1 D2(1)]
  have "dc \<longrightarrow> closed_under ?gc (nodeTrees h mN) (D1 \<union> D2)"
  proof
    assume dc
    then have "closed_under ?gc (nodeTrees h mN) D2"
      using D2(4) closed_under_agree[OF c(2), of ?gc] by simp
    then show "closed_under ?gc (nodeTrees h mN) (D1 \<union> D2)"
      using D1(4) \<open>dc\<close> closed_under_Un by blast
  qed
  moreover have "del_result this h h' mN mP (D1 \<union> D2) {}" using c(1) by simp
  moreover have "set (i # ids) \<subseteq> D1 \<union> D2" using D1(2) D2(2) by auto
  moreover have "\<not> dc \<longrightarrow> D1 \<union> D2 = set (i # ids)" using D1(3) D2(3) by auto
  ultimately show ?case by (intro exI[of _ "D1 \<union> D2"]) simp
qed

lemma deleteRecursive_Inl:
  "deleteRecursive this h mN mP i dc = (Inl e, h') \<Longrightarrow>
     (e = NotUnparented \<and> getP h mP i \<noteq> None \<and> h' = h) \<or>
     (e = NodeToDeleteMustExist \<and> getP h mP i = None)"
  "deleteRecursive_children this h mN mP cs dc = (Inl e, h') \<Longrightarrow> e = NodeToDeleteMustExist \<and> dc"
proof (induction this h mN mP i dc and this h mN mP cs dc arbitrary: e h' and e h'
    rule: deleteRecursive_deleteRecursive_children.induct)
  case (1 this h mN mP nid dc)
  show ?case
  proof (cases "getP h mP nid \<noteq> None")
    case True
    then show ?thesis using "1.prems" by simp
  next
    case False
    show ?thesis
    proof (cases "getN h mN nid")
      case None
      then show ?thesis using False "1.prems" by simp
    next
      case (Some node)
      have "e = NodeToDeleteMustExist \<and> dc"
        using "1.IH"[OF False Some] "1.prems" False Some by simp
      then show ?thesis using False by simp
    qed
  qed
next
  case (2 this h mN mP dc)
  then show ?case by simp
next
  case (3 this h mN mP child pd rest dc)
  let ?h1 = "deleteP h mP child"
  show ?case
  proof (cases dc)
    case False
    then show ?thesis using "3.IH"(3)[OF refl False] "3.prems" by simp
  next
    case True
    obtain r1 h2 where rec: "deleteRecursive this ?h1 mN mP child dc = (r1, h2)"
      by (cases "deleteRecursive this ?h1 mN mP child dc")
    have unp: "getP ?h1 mP child = None" by (simp add: getP_def deleteP_def)
    show ?thesis
    proof (cases r1)
      case (Inl e1)
      then have "e = e1" using "3.prems" True rec by simp
      moreover have "e1 = NodeToDeleteMustExist"
        using "3.IH"(1)[OF refl True] rec Inl unp by auto
      ultimately show ?thesis using True by simp
    next
      case (Inr u)
      then show ?thesis
        using "3.IH"(2)[OF refl True rec[symmetric] Inr] "3.prems" True rec by simp
    qed
  qed
qed

lemma deleteRecursive_parented:
  "getP h mP i \<noteq> None \<Longrightarrow> deleteRecursive this h mN mP i dc = (Inl NotUnparented, h)"
  by simp

lemma deleteRecursive_absent:
  "getP h mP i = None \<Longrightarrow> getN h mN i = None \<Longrightarrow>
     deleteRecursive this h mN mP i dc = (Inl NodeToDeleteMustExist, h)"
  by simp


lemma cloned_fields:
  "nodeTrees (cloned h F) (nextRef h) = nodesOf h F"
  "parentTrees (cloned h F) (Suc (nextRef h)) = parentsOf h F"
  "forests (cloned h F) = forests h"
  "nextRef (cloned h F) = Suc (Suc (nextRef h))"
  "mergerCalls (cloned h F) = mergerCalls h"
  "extends h (cloned h F)"
  by (simp_all add: cloned_def cloneN_def cloneP_def nodesOf_def parentsOf_def extends_def)

lemma deleteAll_eq:
  "deleteAll h F ids dc =
     (case deleteAll_loop F (cloned h F) (nextRef h) (Suc (nextRef h)) ids dc of
        (Inl e, h3) \<Rightarrow> (Inl e, h3)
      | (Inr u, h3) \<Rightarrow>
          (Inr (nextRef h3),
           snd (new_ForestI h3 \<lparr>nodes = nextRef h, parents = Suc (nextRef h),
                  getChildren = getChildren (forests h F)\<rparr>)))"
  by (simp add: deleteAll_def cloned_def cloneN_def cloneP_def new_ForestI_def Let_def
      split: prod.splits sum.splits)

lemma same_but_extends:
  "same_but h2 h3 mN mP \<Longrightarrow> extends h h2 \<Longrightarrow> nextRef h \<le> mN \<Longrightarrow> nextRef h \<le> mP \<Longrightarrow> extends h h3"
  by (auto simp: same_but_def extends_def)

lemma deleteAll_extends: "deleteAll h F ids dc = (r, h') \<Longrightarrow> extends h h'"
proof -
  assume a: "deleteAll h F ids dc = (r, h')"
  obtain r3 h3 where loop: "deleteAll_loop F (cloned h F) (nextRef h) (Suc (nextRef h)) ids dc = (r3, h3)"
    by (cases "deleteAll_loop F (cloned h F) (nextRef h) (Suc (nextRef h)) ids dc")
  have sb: "same_but (cloned h F) h3 (nextRef h) (Suc (nextRef h))"
    using loop by (rule deleteAll_loop_same_but)
  have e3: "extends h h3"
    by (rule same_but_extends[OF sb cloned_fields(6)]) simp_all
  show "extends h h'"
  proof (cases r3)
    case (Inl e)
    then show ?thesis using a loop e3 by (simp add: deleteAll_eq)
  next
    case (Inr u)
    then have "h' = snd (new_ForestI h3 \<lparr>nodes = nextRef h, parents = Suc (nextRef h),
                  getChildren = getChildren (forests h F)\<rparr>)"
      using a loop by (simp add: deleteAll_eq)
    then show ?thesis using e3 by (auto simp: extends_def new_ForestI_def)
  qed
qed

lemma deleteAll_Inl:
  assumes "deleteAll h F ids dc = (Inl e, h')"
  shows "e = NotUnparented \<or> e = NodeToDeleteMustExist"
proof -
  have loop: "deleteAll_loop F (cloned h F) (nextRef h) (Suc (nextRef h)) ids dc = (Inl e, h')"
    using assms by (auto simp: deleteAll_eq split: prod.splits sum.splits)
  have "deleteAll_loop this h2 mN mP ids dc = (Inl e, h') \<Longrightarrow>
      e = NotUnparented \<or> e = NodeToDeleteMustExist" for this h2 mN mP
  proof (induction ids arbitrary: h2)
    case Nil
    then show ?case by simp
  next
    case (Cons i ids)
    obtain r1 h1 where rec: "deleteRecursive this h2 mN mP i dc = (r1, h1)"
      by (cases "deleteRecursive this h2 mN mP i dc")
    show ?case
    proof (cases r1)
      case (Inl e1)
      then have "e = e1" using Cons.prems rec by simp
      then show ?thesis using deleteRecursive_Inl(1)[of this h2 mN mP i dc e1 h1] rec Inl by auto
    next
      case (Inr u)
      then show ?thesis using Cons.IH[of h1] Cons.prems rec by simp
    qed
  qed
  then show ?thesis using loop by blast
qed

lemma deleteAll_Inr:
  assumes "deleteAll h F ids dc = (Inr G, h')"
  shows "\<exists>D. set ids \<subseteq> D \<and> (\<forall>k \<in> D. tryGet h F k \<noteq> None) \<and>
           (\<forall>k. tryGet h' G k = (if k \<in> D then None else tryGet h F k)) \<and>
           (\<forall>c. tryGetParent h' G c =
              (if c \<in> claimed (childrenOf h F) (nodesOf h F) D then None else tryGetParent h F c)) \<and>
           (\<not> dc \<longrightarrow> D = set ids) \<and>
           (dc \<longrightarrow> closed_under (childrenOf h F) (nodesOf h F) D)"
    and "childrenOf h' G = childrenOf h F"
    and "valid h' G"
    and "mergerCalls h' = mergerCalls h"
proof -
  let ?mN = "nextRef h" and ?mP = "Suc (nextRef h)"
  obtain u h3 where loop: "deleteAll_loop F (cloned h F) ?mN ?mP ids dc = (Inr u, h3)"
    and G: "G = nextRef h3"
    and h': "h' = snd (new_ForestI h3 \<lparr>nodes = ?mN, parents = ?mP, getChildren = getChildren (forests h F)\<rparr>)"
    using assms by (auto simp: deleteAll_eq split: prod.splits sum.splits)
  have sb: "same_but (cloned h F) h3 ?mN ?mP"
    using loop by (rule deleteAll_loop_same_but)
  then have n3: "nextRef h3 = Suc (Suc (nextRef h))" and m3: "mergerCalls h3 = mergerCalls h"
    by (simp_all add: same_but_def cloned_fields)
  have reads: "nodesOf h' G = nodeTrees h3 ?mN" "parentsOf h' G = parentTrees h3 ?mP"
    unfolding G h' by (simp_all add: nodesOf_def parentsOf_def new_ForestI_def)
  show "childrenOf h' G = childrenOf h F"
    unfolding G h' by (simp add: childrenOf_def new_ForestI_def)
  show "valid h' G"
    unfolding G h' using n3 by (simp add: valid_def new_ForestI_def)
  show "mergerCalls h' = mergerCalls h"
    unfolding h' using m3 by (simp add: new_ForestI_def)
  obtain D where D: "del_result F (cloned h F) h3 ?mN ?mP D {}" "set ids \<subseteq> D"
      "\<not> dc \<longrightarrow> D = set ids"
      "dc \<longrightarrow> closed_under (getChildren (forests (cloned h F) F)) (nodeTrees (cloned h F) ?mN) D"
    using deleteAll_loop_Inr[OF loop] by blast
  show "\<exists>D. set ids \<subseteq> D \<and> (\<forall>k \<in> D. tryGet h F k \<noteq> None) \<and>
           (\<forall>k. tryGet h' G k = (if k \<in> D then None else tryGet h F k)) \<and>
           (\<forall>c. tryGetParent h' G c =
              (if c \<in> claimed (childrenOf h F) (nodesOf h F) D then None else tryGetParent h F c)) \<and>
           (\<not> dc \<longrightarrow> D = set ids) \<and>
           (dc \<longrightarrow> closed_under (childrenOf h F) (nodesOf h F) D)"
    apply (rule exI[of _ D])
    using D unfolding del_result_def cloned_fields
    by (simp add: tryGet_nodesOf tryGetParent_parentsOf reads childrenOf_def)
qed






lemma store3_reads:
  "tryGetParent store3 forest3 2 = Some \<lparr>parentNode = 1, parentData = 10\<rparr>"
  "tryGetParent store3 forest3 1 = None"
  "tryGet store3 forest3 1 = Some [(2, 10)]"
  "tryGet store3 forest3 2 = Some [(3, 20)]"
  "tryGet store3 forest3 3 = Some []"
  "childrenOf store3 forest3 = claimsOwn"
  by (simp_all add: store3_def forest3_def store1_def forest1_def childrenOf_def store_defs)


lemmas delete_defs =
  store3_def forest3_def store1_def forest1_def deleteAll_def delete_def




section \<open>delta and equals\<close>

lemma keys_bt_entries: "map fst (bt_entries m) = sorted_list_of_fset (fmdom m)"
  by (simp add: bt_entries_def comp_def)

lemma distinct_bt_entries: "distinct (map fst (bt_entries m))"
  by (simp add: keys_bt_entries sorted_list_of_fset.rep_eq)

lemma set_bt_entries: "(k, v) \<in> set (bt_entries m) \<longleftrightarrow> fmlookup m k = Some v"
  by (auto simp: bt_entries_def fmlookup_dom_iff)

lemma set_keys_bt_entries: "fst ` set (bt_entries m) = {k. fmlookup m k \<noteq> None}"
  by (auto simp: bt_entries_def fmlookup_dom_iff image_iff)

lemma in_iterate: "(k, v) \<in> set (iterate h F) \<longleftrightarrow> tryGet h F k = Some v"
  by (simp add: iterate_nodesOf tryGet_nodesOf set_bt_entries)











section \<open>Failing mutations\<close>

lemma extends_unchanged: "extends h h' \<Longrightarrow> valid h F \<Longrightarrow> observably_unchanged h h' F"
  by (simp add: observably_unchanged_def size_forest_nodesOf tryGet_nodesOf tryGetParent_parentsOf
      iterate_nodesOf extends_nodesOf extends_parentsOf)

text \<open>
  Claim C7. A mutating method that throws returns no forest, and the forest it was called
  on reads after the throw as before it: same size, same nodes, same parent records, same
  iteration. This holds of every throw of \<open>add\<close>, \<open>addAll\<close>, \<open>mergeWith\<close>,
  \<open>replace\<close>, \<open>delete\<close> and \<open>deleteAll\<close>, also when a batch has already changed
  its clones or produced intermediate forests.
\<close>

theorem failing_mutation_leaves_forest:
  assumes "valid h F"
  shows "(\<forall>e h'. add h F i n = (Inl e, h') \<longrightarrow> observably_unchanged h h' F) \<and>
         (\<forall>e h'. addAll h F xs = (Inl e, h') \<longrightarrow> observably_unchanged h h' F) \<and>
         (\<forall>e h'. mergeWith h F xs m = (Inl e, h') \<longrightarrow> observably_unchanged h h' F) \<and>
         (\<forall>e h'. replace h F i n = (Inl e, h') \<longrightarrow> observably_unchanged h h' F) \<and>
         (\<forall>e h'. delete h F i dc = (Inl e, h') \<longrightarrow> observably_unchanged h h' F) \<and>
         (\<forall>e h'. deleteAll h F ids dc = (Inl e, h') \<longrightarrow> observably_unchanged h h' F)"
proof (intro conjI allI impI)
  fix e h' assume "add h F i n = (Inl e, h')"
  then have "extends h h'" by (rule add_extends)
  then show "observably_unchanged h h' F" using assms by (rule extends_unchanged)
next
  fix e h' assume "addAll h F xs = (Inl e, h')"
  then have "extends h h'" unfolding addAll_def by (rule mergeWith_extends)
  then show "observably_unchanged h h' F" using assms by (rule extends_unchanged)
next
  fix e h' assume "mergeWith h F xs m = (Inl e, h')"
  then have "extends h h'" by (rule mergeWith_extends)
  then show "observably_unchanged h h' F" using assms by (rule extends_unchanged)
next
  fix e h' assume "replace h F i n = (Inl e, h')"
  then have "extends h h'" by (rule replace_extends)
  then show "observably_unchanged h h' F" using assms by (rule extends_unchanged)
next
  fix e h' assume "delete h F i dc = (Inl e, h')"
  then have "extends h h'" unfolding delete_def by (rule deleteAll_extends)
  then show "observably_unchanged h h' F" using assms by (rule extends_unchanged)
next
  fix e h' assume "deleteAll h F ids dc = (Inl e, h')"
  then have "extends h h'" by (rule deleteAll_extends)
  then show "observably_unchanged h h' F" using assms by (rule extends_unchanged)
qed

lemma valid_store3: "valid store3 forest3"
  by (simp add: valid_def store3_def forest3_def store1_def forest1_def store_defs)

theorem failing_mutation_leaves_forest_witness:
  "valid store3 forest3 \<and>
   fst (deleteAll store3 forest3 [1, 7] False) = Inl NodeToDeleteMustExist \<and>
   getN (snd (deleteAll store3 forest3 [1, 7] False)) 12 1 = None \<and>
   observably_unchanged store3 (snd (deleteAll store3 forest3 [1, 7] False)) forest3 \<and>
   tryGet (snd (deleteAll store3 forest3 [1, 7] False)) forest3 1 = Some [(2, 10)] \<and>
   fst (mergeWith store3 forest3 [(9, []), (1, [])] (\<lambda>a b k. Inl (CallerError ''unresolved''))) =
     Inl (CallerError ''unresolved'') \<and>
   observably_unchanged store3
     (snd (mergeWith store3 forest3 [(9, []), (1, [])] (\<lambda>a b k. Inl (CallerError ''unresolved''))))
     forest3"
proof -
  let ?d = "deleteAll store3 forest3 [1, 7] False"
  let ?m = "mergeWith store3 forest3 [(9, []), (1, [])] (\<lambda>a b k. Inl (CallerError ''unresolved''))"
  have f1: "fst ?d = Inl NodeToDeleteMustExist"
    and g1: "getN (snd ?d) 12 1 = None"
    by (simp_all add: delete_defs store_defs)
  have f2: "fst ?m = Inl (CallerError ''unresolved'')"
    by (simp add: delete_defs mergeWith_def store_defs)
  have r1: "?d = (Inl NodeToDeleteMustExist, snd ?d)" using f1 by (metis prod.collapse)
  have r2: "?m = (Inl (CallerError ''unresolved''), snd ?m)" using f2 by (metis prod.collapse)
  note t = failing_mutation_leaves_forest[OF valid_store3]
  have u1: "observably_unchanged store3 (snd ?d) forest3"
    using t[where ids = "[1, 7]" and dc = False] r1 by blast
  have u2: "observably_unchanged store3 (snd ?m) forest3"
    using t[where xs = "[(9, []), (1, [])]" and m = "\<lambda>a b k. Inl (CallerError ''unresolved'')"] r2
    by blast
  have "tryGet (snd ?d) forest3 1 = Some [(2, 10)]"
    using u1 by (simp add: observably_unchanged_def store3_reads[simplified])
  then show ?thesis using valid_store3 f1 g1 u1 f2 u2 by simp
qed

section \<open>mergeWith and addAll\<close>

lemma foldl_merge_step_Inl: "foldl (merge_step m) (Inl e, h) ys = (Inl e, h)"
  by (induction ys) (simp_all add: merge_step_def)

lemma mergeWith_loop_foldl:
  "mergeWith_loop h G xs m = foldl (merge_step m) (Inr G, h) xs"
proof (induction xs arbitrary: h G)
  case Nil
  then show ?case by simp
next
  case (Cons a xs)
  obtain nid node where a: "a = (nid, node)" by (cases a)
  show ?case
  proof (cases "tryGet h G nid")
    case None
    then have step: "merge_step m (Inr G, h) (nid, node) = add h G nid node"
      by (simp add: merge_step_def)
    obtain r h2 where r: "add h G nid node = (r, h2)" by (cases "add h G nid node")
    show ?thesis
      unfolding a using None step r Cons.IH
      by (cases r) (simp_all add: tryGet_def foldl_merge_step_Inl)
  next
    case (Some old)
    let ?h1 = "h\<lparr>mergerCalls := mergerCalls h @ [(old, node, nid)]\<rparr>"
    show ?thesis
    proof (cases "m old node nid")
      case (Inl e)
      then have step: "merge_step m (Inr G, h) (nid, node) = (Inl e, ?h1)"
        using Some by (simp add: merge_step_def Let_def)
      show ?thesis
        unfolding a using Some Inl step by (simp add: tryGet_def Let_def foldl_merge_step_Inl)
    next
      case (Inr merged)
      then have step: "merge_step m (Inr G, h) (nid, node) = replace ?h1 G nid merged"
        using Some by (simp add: merge_step_def Let_def)
      obtain r h2 where r: "replace ?h1 G nid merged = (r, h2)" by (cases "replace ?h1 G nid merged")
      show ?thesis
        unfolding a using Some Inr step r Cons.IH
        by (cases r) (simp_all add: tryGet_def Let_def foldl_merge_step_Inl)
    qed
  qed
qed

lemma mergeWith_Nil:
  "mergeWith h F [] m =
     (Inr (nextRef h),
      h\<lparr>forests := (forests h)(nextRef h := \<lparr>nodes = nodes (forests h F), parents = parents (forests h F),
             getChildren = getChildren (forests h F)\<rparr>), nextRef := Suc (nextRef h)\<rparr>)"
  by (simp add: mergeWith_def new_ForestI_def Let_def)

lemma mergeWith_foldl: "mergeWith h F xs m = foldl (merge_step m) (mergeWith h F [] m) xs"
  unfolding mergeWith_Nil by (simp add: mergeWith_def new_ForestI_def Let_def mergeWith_loop_foldl)





section \<open>assertConsistent\<close>

lemma checked_step_iff:
  assumes "distinct X" and "set X \<inter> fset checked = {}"
  shows "(distinct Y \<and> set Y \<inter> fset (checked |\<union>| fset_of_list X) = {} \<and> P \<and>
            checked' = (checked |\<union>| fset_of_list X) |\<union>| fset_of_list Y) \<longleftrightarrow>
         (distinct (X @ Y) \<and> set (X @ Y) \<inter> fset checked = {} \<and> P \<and>
            checked' = checked |\<union>| fset_of_list (X @ Y))"
proof -
  have 1: "fset (checked |\<union>| fset_of_list X) = fset checked \<union> set X"
    by (simp add: fset_of_list.rep_eq)
  have 2: "(checked |\<union>| fset_of_list X) |\<union>| fset_of_list Y = checked |\<union>| fset_of_list (X @ Y)"
    by (simp add: funion_assoc)
  show ?thesis
    unfolding 1 2 using assms by auto
qed

lemma ac_children_Inr_iff:
  "assertConsistent_children h F k checked cs = Inr checked' \<longleftrightarrow>
     distinct (map fst cs) \<and> set (map fst cs) \<inter> fset checked = {} \<and>
     (\<forall>c \<in> set (map fst cs). \<exists>r. tryGetParent h F c = Some r \<and> parentNode r = k) \<and>
     checked' = checked |\<union>| fset_of_list (map fst cs)"
proof (induction cs arbitrary: checked)
  case Nil
  then show ?case by auto
next
  case (Cons a cs)
  obtain c pd where a: "a = (c, pd)" by (cases a)
  let ?ok = "\<forall>c \<in> set (map fst cs). \<exists>r. tryGetParent h F c = Some r \<and> parentNode r = k"
  show ?case
  proof (cases "c |\<in>| checked")
    case True
    then show ?thesis unfolding a by auto
  next
    case False
    show ?thesis
    proof (cases "tryGetParent h F c")
      case None
      then show ?thesis unfolding a using False by (auto simp: tryGetParent_def)
    next
      case (Some r)
      show ?thesis
      proof (cases "parentNode r = k")
        case neq: False
        then show ?thesis unfolding a using False Some by (auto simp: tryGetParent_def)
      next
        case True
        have step: "assertConsistent_children h F k checked ((c, pd) # cs) =
            assertConsistent_children h F k (finsert c checked) cs"
          using False Some True by (simp add: tryGetParent_def)
        have fi: "finsert c checked = checked |\<union>| fset_of_list [c]" by auto
        have d: "distinct [c]" "set [c] \<inter> fset checked = {}" using False by auto
        have "assertConsistent_children h F k checked ((c, pd) # cs) = Inr checked' \<longleftrightarrow>
            distinct ([c] @ map fst cs) \<and> set ([c] @ map fst cs) \<inter> fset checked = {} \<and> ?ok \<and>
            checked' = checked |\<union>| fset_of_list ([c] @ map fst cs)"
          unfolding step Cons.IH fi by (rule checked_step_iff[OF d])
        then show ?thesis
          unfolding a using Some True by auto
      qed
    qed
  qed
qed

lemma ac_nodes_Inr_iff:
  "assertConsistent_nodes h F checked es = Inr checked' \<longleftrightarrow>
     distinct (concat (map (\<lambda>(k, v). map fst (childrenOf h F v)) es)) \<and>
     set (concat (map (\<lambda>(k, v). map fst (childrenOf h F v)) es)) \<inter> fset checked = {} \<and>
     (\<forall>(k, v) \<in> set es. \<forall>c \<in> set (map fst (childrenOf h F v)).
        \<exists>r. tryGetParent h F c = Some r \<and> parentNode r = k) \<and>
     checked' = checked |\<union>| fset_of_list (concat (map (\<lambda>(k, v). map fst (childrenOf h F v)) es))"
proof (induction es arbitrary: checked)
  case Nil
  then show ?case by auto
next
  case (Cons a es)
  obtain k v where a: "a = (k, v)" by (cases a)
  let ?X = "map fst (childrenOf h F v)"
  let ?Y = "concat (map (\<lambda>(k, v). map fst (childrenOf h F v)) es)"
  let ?okX = "\<forall>c \<in> set ?X. \<exists>r. tryGetParent h F c = Some r \<and> parentNode r = k"
  let ?okY = "\<forall>(k, v) \<in> set es. \<forall>c \<in> set (map fst (childrenOf h F v)).
        \<exists>r. tryGetParent h F c = Some r \<and> parentNode r = k"
  have cc: "concat (map (\<lambda>(k, v). map fst (childrenOf h F v)) ((k, v) # es)) = ?X @ ?Y" by simp
  have okc: "(\<forall>(k, v) \<in> set ((k, v) # es). \<forall>c \<in> set (map fst (childrenOf h F v)).
        \<exists>r. tryGetParent h F c = Some r \<and> parentNode r = k) \<longleftrightarrow> ?okX \<and> ?okY" by simp
  show ?case
  proof (cases "assertConsistent_children h F k checked (childrenOf h F v)")
    case (Inl e)
    then have no: "\<not> (distinct ?X \<and> set ?X \<inter> fset checked = {} \<and> ?okX)"
      using ac_children_Inr_iff[of h F k checked "childrenOf h F v"] by auto
    have "assertConsistent_nodes h F checked ((k, v) # es) = Inl e"
      using Inl by (simp add: childrenOf_def)
    then show ?thesis unfolding a cc okc using no by auto
  next
    case (Inr c1)
    then have yes: "distinct ?X" "set ?X \<inter> fset checked = {}" "?okX"
        "c1 = checked |\<union>| fset_of_list ?X"
      using ac_children_Inr_iff[of h F k checked "childrenOf h F v" c1] by auto
    have step: "assertConsistent_nodes h F checked ((k, v) # es) = assertConsistent_nodes h F c1 es"
      using Inr by (simp add: childrenOf_def)
    have "assertConsistent_nodes h F checked ((k, v) # es) = Inr checked' \<longleftrightarrow>
        distinct (?X @ ?Y) \<and> set (?X @ ?Y) \<inter> fset checked = {} \<and> ?okY \<and>
        checked' = checked |\<union>| fset_of_list (?X @ ?Y)"
      unfolding step Cons.IH yes(4) by (rule checked_step_iff[OF yes(1,2)])
    then show ?thesis
      unfolding a cc okc using yes(3) by blast
  qed
qed

lemma fcard_fset_of_list_distinct: "distinct xs \<Longrightarrow> fcard (fset_of_list xs) = length xs"
  by (simp add: fcard.rep_eq fset_of_list.rep_eq distinct_card)

lemma bex_snd_iff: "(\<exists>e \<in> set L. P (snd e)) \<longleftrightarrow> (\<exists>k v. (k, v) \<in> set L \<and> P v)"
  by force

lemma in_claimedChildren:
  "c \<in> set (claimedChildren h F) \<longleftrightarrow>
     (\<exists>k v. tryGet h F k = Some v \<and> c \<in> set (map fst (childrenOf h F v)))"
proof -
  have "c \<in> set (claimedChildren h F) \<longleftrightarrow>
      (\<exists>e \<in> set (iterate h F). c \<in> set (map fst (childrenOf h F (snd e))))"
    unfolding claimedChildren_def by (auto simp: case_prod_beta)
  also have "\<dots> \<longleftrightarrow> (\<exists>k v. (k, v) \<in> set (iterate h F) \<and> c \<in> set (map fst (childrenOf h F v)))"
    by (rule bex_snd_iff)
  finally show ?thesis by (simp only: in_iterate)
qed

lemma assertConsistent_iff:
  "assertConsistent h F = Inr () \<longleftrightarrow>
     distinct (claimedChildren h F) \<and>
     (\<forall>k v. tryGet h F k = Some v \<longrightarrow>
        (\<forall>c \<in> set (map fst (childrenOf h F v)). \<exists>r. tryGetParent h F c = Some r \<and> parentNode r = k)) \<and>
     length (claimedChildren h F) = bt_size (parentsOf h F)"
proof -
  let ?es = "entriesN h (nodes (forests h F))"
  have es: "?es = iterate h F" by (simp add: iterate_def)
  show ?thesis
  proof (cases "assertConsistent_nodes h F {||} ?es")
    case (Inl e)
    then have "\<not> (distinct (claimedChildren h F) \<and>
        (\<forall>(k, v) \<in> set (iterate h F). \<forall>c \<in> set (map fst (childrenOf h F v)).
           \<exists>r. tryGetParent h F c = Some r \<and> parentNode r = k))"
      using ac_nodes_Inr_iff[of h F "{||}" ?es] unfolding es claimedChildren_def by auto
    then have "\<not> (distinct (claimedChildren h F) \<and>
        (\<forall>k v. tryGet h F k = Some v \<longrightarrow>
        (\<forall>c \<in> set (map fst (childrenOf h F v)). \<exists>r. tryGetParent h F c = Some r \<and> parentNode r = k)))"
      unfolding in_iterate[symmetric] by blast
    moreover have "assertConsistent h F \<noteq> Inr ()"
      using Inl by (simp add: assertConsistent_def Let_def)
    ultimately show ?thesis by blast
  next
    case (Inr checked)
    then have yes: "distinct (claimedChildren h F)"
        "\<forall>(k, v) \<in> set (iterate h F). \<forall>c \<in> set (map fst (childrenOf h F v)).
           \<exists>r. tryGetParent h F c = Some r \<and> parentNode r = k"
        "checked = fset_of_list (claimedChildren h F)"
      using ac_nodes_Inr_iff[of h F "{||}" ?es checked] unfolding es claimedChildren_def by auto
    have par: "\<forall>k v. tryGet h F k = Some v \<longrightarrow>
        (\<forall>c \<in> set (map fst (childrenOf h F v)). \<exists>r. tryGetParent h F c = Some r \<and> parentNode r = k)"
      using yes(2) unfolding in_iterate[symmetric] by blast
    have "assertConsistent h F = Inr () \<longleftrightarrow> length (claimedChildren h F) = bt_size (parentsOf h F)"
      using Inr yes(1,3)
      by (auto simp: assertConsistent_def Let_def fcard_fset_of_list_distinct sizeP_def parentsOf_def)
    then show ?thesis using yes(1) par by blast
  qed
qed

lemma assertConsistent_errors:
  "assertConsistent h F = Inl e \<Longrightarrow>
     e = MultiParented \<or> e = NoMetadata \<or> e = CachedParentIncorrect \<or> e = CountMismatch"
proof -
  have ch: "assertConsistent_children h F k checked cs = Inl e \<Longrightarrow>
      e = MultiParented \<or> e = NoMetadata \<or> e = CachedParentIncorrect" for k checked cs
    by (induction cs arbitrary: checked) (auto split: if_splits option.splits)
  have nd: "assertConsistent_nodes h F checked es = Inl e \<Longrightarrow>
      e = MultiParented \<or> e = NoMetadata \<or> e = CachedParentIncorrect" for checked es
  proof (induction es arbitrary: checked)
    case Nil
    then show ?case by simp
  next
    case (Cons a es)
    obtain k v where a: "a = (k, v)" by (cases a)
    show ?case
      using Cons.prems Cons.IH ch unfolding a
      by (auto split: sum.splits)
  qed
  assume "assertConsistent h F = Inl e"
  then show ?thesis
    using nd by (auto simp: assertConsistent_def Let_def split: sum.splits if_splits)
qed


text \<open>
  Claim C8, as amended. \<open>assertConsistent\<close> does not look the keys of the parents tree
  up in the nodes tree: it compares the number of parent records with the number of claimed
  children. So a parent record whose key no node of the forest yields as a child makes it
  throw one of its consistency errors, whether or not the key has a node; a record for an
  id without a node that some node does claim goes unnoticed.
\<close>

theorem assertConsistent_unclaimed_record:
  assumes "tryGetParent h F c \<noteq> None"
    and "\<forall>k v. tryGet h F k = Some v \<longrightarrow> c \<notin> fst ` set (childrenOf h F v)"
  shows "\<exists>e. assertConsistent h F = Inl e \<and>
           (e = MultiParented \<or> e = NoMetadata \<or> e = CachedParentIncorrect \<or> e = CountMismatch)"
proof (cases "assertConsistent h F")
  case (Inl e)
  then show ?thesis using assertConsistent_errors[of h F e] by simp
next
  case (Inr u)
  then have ok: "assertConsistent h F = Inr ()" by simp
  let ?cl = "claimedChildren h F"
  have d: "distinct ?cl"
    and par: "\<forall>k v. tryGet h F k = Some v \<longrightarrow>
        (\<forall>c \<in> set (map fst (childrenOf h F v)). \<exists>r. tryGetParent h F c = Some r \<and> parentNode r = k)"
    and len: "length ?cl = bt_size (parentsOf h F)"
    using ok unfolding assertConsistent_iff by blast+
  have sub: "set ?cl \<subseteq> fset (fmdom (parentsOf h F))"
  proof
    fix x assume "x \<in> set ?cl"
    then obtain k v where "tryGet h F k = Some v" "x \<in> set (map fst (childrenOf h F v))"
      unfolding in_claimedChildren by blast
    then have "tryGetParent h F x \<noteq> None" using par by fastforce
    then show "x \<in> fset (fmdom (parentsOf h F))"
      by (simp add: tryGetParent_parentsOf fmlookup_dom_iff)
  qed
  have "card (set ?cl) = card (fset (fmdom (parentsOf h F)))"
    using d len by (simp add: distinct_card bt_size_def fcard.rep_eq)
  then have eq: "set ?cl = fset (fmdom (parentsOf h F))"
    using sub by (simp add: card_subset_eq)
  have "c \<in> fset (fmdom (parentsOf h F))"
    using assms(1) by (simp add: tryGetParent_parentsOf fmlookup_dom_iff)
  then have "c \<in> set ?cl" using eq by simp
  then have False using assms(2) unfolding in_claimedChildren by auto
  then show ?thesis ..
qed

text \<open>
  As stated the claim fails on the forest made by adding node \<open>1\<close> that claims \<open>2\<close>:
  \<open>2\<close> has a parent record and no node, and the check passes.
\<close>

theorem assertConsistent_accepts_unborn_child:
  "tryGetParent store1 forest1 2 = Some \<lparr>parentNode = 1, parentData = 10\<rparr> \<and>
   tryGet store1 forest1 2 = None \<and>
   assertConsistent store1 forest1 = Inr ()"
  by (simp add: store1_def forest1_def store_defs assertConsistent_def sorted_list_of_fset.rep_eq
      fcard_finsert_if)

theorem assertConsistent_unclaimed_record_witness:
  "tryGetParent store5 6 2 = Some \<lparr>parentNode = 1, parentData = 10\<rparr> \<and>
   (\<exists>e. assertConsistent store5 6 = Inl e \<and>
      (e = MultiParented \<or> e = NoMetadata \<or> e = CachedParentIncorrect \<or> e = CountMismatch))"
proof -
  have a: "tryGetParent store5 6 2 = Some \<lparr>parentNode = 1, parentData = 10\<rparr>"
    by (simp add: store5_def store1_def forest1_def store_defs)
  then have a': "tryGetParent store5 6 2 \<noteq> None" by simp
  have b: "\<forall>k v. tryGet store5 6 k = Some v \<longrightarrow> 2 \<notin> fst ` set (childrenOf store5 6 v)"
    by (simp add: store5_def store1_def forest1_def store_defs)
  show ?thesis using a assertConsistent_unclaimed_record[OF a' b] by simp
qed

section \<open>Forests built by the methods\<close>

lemma distinct_concat_map:
  assumes "distinct (map fst es)"
  shows "distinct (concat (map f es)) \<longleftrightarrow>
     (\<forall>e \<in> set es. distinct (f e)) \<and>
     (\<forall>e1 \<in> set es. \<forall>e2 \<in> set es. fst e1 \<noteq> fst e2 \<longrightarrow> set (f e1) \<inter> set (f e2) = {})"
  using assms
proof (induction es)
  case Nil
  then show ?case by simp
next
  case (Cons a es)
  define R where "R e1 e2 \<longleftrightarrow> set (f e1) \<inter> set (f e2) = {}" for e1 e2
  have sym: "R x y = R y x" for x y by (auto simp: R_def)
  have d: "distinct (map fst es)" and na: "fst a \<notin> fst ` set es" using Cons.prems by auto
  have ne: "\<forall>e \<in> set es. fst e \<noteq> fst a" using na by (metis image_eqI)
  have "distinct (concat (map f (a # es))) \<longleftrightarrow>
      distinct (f a) \<and> distinct (concat (map f es)) \<and> (\<forall>e \<in> set es. R a e)"
    by (auto simp: R_def)
  also have "\<dots> \<longleftrightarrow> distinct (f a) \<and>
      ((\<forall>e \<in> set es. distinct (f e)) \<and>
       (\<forall>e1 \<in> set es. \<forall>e2 \<in> set es. fst e1 \<noteq> fst e2 \<longrightarrow> R e1 e2)) \<and>
      (\<forall>e \<in> set es. R a e)"
    unfolding Cons.IH[OF d] R_def ..
  also have "\<dots> \<longleftrightarrow> (\<forall>e \<in> insert a (set es). distinct (f e)) \<and>
     (\<forall>e1 \<in> insert a (set es). \<forall>e2 \<in> insert a (set es). fst e1 \<noteq> fst e2 \<longrightarrow> R e1 e2)"
    using ne sym by blast
  finally show ?case unfolding R_def by simp
qed

lemma distinct_claimed_iff: "distinct (claimedChildren h F) \<longleftrightarrow> wellBehaved h F"
proof -
  have d: "distinct (map fst (iterate h F))"
    by (simp add: iterate_nodesOf distinct_bt_entries)
  show ?thesis
    unfolding claimedChildren_def distinct_concat_map[OF d] wellBehaved_def noSharedChild_def
      noRepeatedChild_def
    by (auto simp: case_prod_beta)
qed

lemma ball_pair_iff: "(\<forall>(k, v) \<in> set L. P k v) \<longleftrightarrow> (\<forall>k v. (k, v) \<in> set L \<longrightarrow> P k v)"
  by auto

lemma ball_pair2_iff:
  "(\<forall>(k1, v1) \<in> set L. \<forall>(k2, v2) \<in> set L. Q k1 v1 k2 v2) \<longleftrightarrow>
   (\<forall>k1 v1 k2 v2. (k1, v1) \<in> set L \<and> (k2, v2) \<in> set L \<longrightarrow> Q k1 v1 k2 v2)"
  by auto

lemma wellBehaved_view:
  "wellBehaved h F \<longleftrightarrow>
     (\<forall>k v. tryGet h F k = Some v \<longrightarrow> distinct (map fst (childrenOf h F v))) \<and>
     (\<forall>k1 v1 k2 v2. tryGet h F k1 = Some v1 \<and> tryGet h F k2 = Some v2 \<and> k1 \<noteq> k2 \<longrightarrow>
        set (map fst (childrenOf h F v1)) \<inter> set (map fst (childrenOf h F v2)) = {})"
  unfolding wellBehaved_def noSharedChild_def noRepeatedChild_def ball_pair_iff ball_pair2_iff
    in_iterate
  by blast


lemma disjointI': "(\<And>c. c \<in> A \<Longrightarrow> c \<notin> B) \<Longrightarrow> A \<inter> B = {}"
  by blast

lemma disjointD': "A \<inter> B = {} \<Longrightarrow> c \<in> A \<Longrightarrow> c \<notin> B"
  by blast

lemma cons_viewI:
  assumes "\<And>k v. ns k = Some v \<Longrightarrow> distinct (map fst (gc v))"
    and "\<And>k1 v1 k2 v2. ns k1 = Some v1 \<Longrightarrow> ns k2 = Some v2 \<Longrightarrow> k1 \<noteq> k2 \<Longrightarrow>
        set (map fst (gc v1)) \<inter> set (map fst (gc v2)) = {}"
    and "\<And>c. ps c \<noteq> None \<Longrightarrow> \<exists>k v. ns k = Some v \<and> c \<in> set (map fst (gc v))"
    and "\<And>k v c. ns k = Some v \<Longrightarrow> c \<in> set (map fst (gc v)) \<Longrightarrow> \<exists>r. ps c = Some r \<and> parentNode r = k"
  shows "cons_view ns ps gc"
  unfolding cons_view_def using assms by blast

lemma cons_viewD:
  assumes "cons_view ns ps gc"
  shows "\<And>k v. ns k = Some v \<Longrightarrow> distinct (map fst (gc v))"
    and "\<And>k1 v1 k2 v2 c. ns k1 = Some v1 \<Longrightarrow> ns k2 = Some v2 \<Longrightarrow> k1 \<noteq> k2 \<Longrightarrow>
        c \<in> set (map fst (gc v1)) \<Longrightarrow> c \<notin> set (map fst (gc v2))"
    and "\<And>c. ps c \<noteq> None \<Longrightarrow> \<exists>k v. ns k = Some v \<and> c \<in> set (map fst (gc v))"
    and "\<And>k v c. ns k = Some v \<Longrightarrow> c \<in> set (map fst (gc v)) \<Longrightarrow> \<exists>r. ps c = Some r \<and> parentNode r = k"
proof -
  show "\<And>k v. ns k = Some v \<Longrightarrow> distinct (map fst (gc v))"
    using assms unfolding cons_view_def by blast
  show "\<And>c. ps c \<noteq> None \<Longrightarrow> \<exists>k v. ns k = Some v \<and> c \<in> set (map fst (gc v))"
    using assms unfolding cons_view_def by blast
  show "\<And>k v c. ns k = Some v \<Longrightarrow> c \<in> set (map fst (gc v)) \<Longrightarrow> \<exists>r. ps c = Some r \<and> parentNode r = k"
    using assms unfolding cons_view_def by blast
  fix k1 v1 k2 v2 c
  assume a: "ns k1 = Some v1" "ns k2 = Some v2" "k1 \<noteq> k2" and c: "c \<in> set (map fst (gc v1))"
  have "set (map fst (gc v1)) \<inter> set (map fst (gc v2)) = {}"
    using assms a unfolding cons_view_def by blast
  then show "c \<notin> set (map fst (gc v2))" using c by (rule disjointD')
qed

lemma map_of_rev_keys:
  "c \<in> set (map fst cs) \<Longrightarrow> \<exists>d. map_of (rev cs) c = Some d"
  "c \<notin> set (map fst cs) \<Longrightarrow> map_of (rev cs) c = None"
  using map_of_rev_dom[of c cs] by (auto simp: map_of_eq_None_iff)

lemma view_add:
  assumes C: "cons_view ns ps gc" and fresh: "ns i = None"
    and ns': "\<And>k. ns' k = (if k = i then Some n else ns k)"
    and ps': "\<And>c. ps' c = (case map_of (rev (gc n)) c of
                Some d \<Rightarrow> Some \<lparr>parentNode = i, parentData = d\<rparr> | None \<Rightarrow> ps c)"
    and W1: "\<And>k v. ns' k = Some v \<Longrightarrow> distinct (map fst (gc v))"
    and W2: "\<And>k1 v1 k2 v2 c. ns' k1 = Some v1 \<Longrightarrow> ns' k2 = Some v2 \<Longrightarrow> k1 \<noteq> k2 \<Longrightarrow>
        c \<in> set (map fst (gc v1)) \<Longrightarrow> c \<notin> set (map fst (gc v2))"
  shows "cons_view ns' ps' gc"
proof (rule cons_viewI)
  fix k v assume "ns' k = Some v"
  then show "distinct (map fst (gc v))" by (rule W1)
next
  fix k1 v1 k2 v2 assume a: "ns' k1 = Some v1" "ns' k2 = Some v2" "k1 \<noteq> k2"
  show "set (map fst (gc v1)) \<inter> set (map fst (gc v2)) = {}"
    by (rule disjointI') (rule W2[OF a])
next
  fix c assume p: "ps' c \<noteq> None"
  show "\<exists>k v. ns' k = Some v \<and> c \<in> set (map fst (gc v))"
  proof (cases "c \<in> set (map fst (gc n))")
    case True
    moreover have "ns' i = Some n" by (simp add: ns')
    ultimately show ?thesis by blast
  next
    case False
    then have "ps' c = ps c" using map_of_rev_keys(2)[OF False] by (simp add: ps')
    then obtain k v where kv: "ns k = Some v" "c \<in> set (map fst (gc v))"
      using p cons_viewD(3)[OF C, of c] by auto
    then have "k \<noteq> i" using fresh by auto
    then have "ns' k = Some v" using kv(1) by (simp add: ns')
    then show ?thesis using kv(2) by blast
  qed
next
  fix k v c assume kv: "ns' k = Some v" and c: "c \<in> set (map fst (gc v))"
  show "\<exists>r. ps' c = Some r \<and> parentNode r = k"
  proof (cases "k = i")
    case True
    have "ns' i = Some n" by (simp add: ns')
    moreover have "ns' i = Some v" using kv unfolding True .
    ultimately have "v = n" by simp
    then have "c \<in> set (map fst (gc n))" using c by simp
    from map_of_rev_keys(1)[OF this] obtain d where "map_of (rev (gc n)) c = Some d" ..
    then show ?thesis using True by (simp add: ps')
  next
    case False
    then have old: "ns k = Some v" using kv by (simp add: ns')
    have "ns' i = Some n" by (simp add: ns')
    then have notn: "c \<notin> set (map fst (gc n))"
      by (rule W2[OF kv _ False c])
    have "ps' c = ps c" using map_of_rev_keys(2)[OF notn] by (simp add: ps')
    then show ?thesis using cons_viewD(4)[OF C old c] by simp
  qed
qed

lemma view_replace:
  assumes C: "cons_view ns ps gc" and present: "ns i = Some old"
    and ns': "\<And>k. ns' k = (if k = i then Some n else ns k)"
    and ps': "\<And>c. ps' c = (case map_of (rev (gc n)) c of
                Some d \<Rightarrow> Some \<lparr>parentNode = i, parentData = d\<rparr>
              | None \<Rightarrow> if c \<in> set (map fst (gc old)) then None else ps c)"
    and W1: "\<And>k v. ns' k = Some v \<Longrightarrow> distinct (map fst (gc v))"
    and W2: "\<And>k1 v1 k2 v2 c. ns' k1 = Some v1 \<Longrightarrow> ns' k2 = Some v2 \<Longrightarrow> k1 \<noteq> k2 \<Longrightarrow>
        c \<in> set (map fst (gc v1)) \<Longrightarrow> c \<notin> set (map fst (gc v2))"
  shows "cons_view ns' ps' gc"
proof (rule cons_viewI)
  fix k v assume "ns' k = Some v"
  then show "distinct (map fst (gc v))" by (rule W1)
next
  fix k1 v1 k2 v2 assume a: "ns' k1 = Some v1" "ns' k2 = Some v2" "k1 \<noteq> k2"
  show "set (map fst (gc v1)) \<inter> set (map fst (gc v2)) = {}"
    by (rule disjointI') (rule W2[OF a])
next
  fix c assume p: "ps' c \<noteq> None"
  show "\<exists>k v. ns' k = Some v \<and> c \<in> set (map fst (gc v))"
  proof (cases "c \<in> set (map fst (gc n))")
    case True
    moreover have "ns' i = Some n" by (simp add: ns')
    ultimately show ?thesis by blast
  next
    case False
    then have e: "ps' c = (if c \<in> set (map fst (gc old)) then None else ps c)"
      using map_of_rev_keys(2)[OF False] by (simp add: ps')
    then have notold: "c \<notin> set (map fst (gc old))" and "ps c \<noteq> None"
      using p by (auto split: if_splits)
    then obtain k v where kv: "ns k = Some v" "c \<in> set (map fst (gc v))"
      using cons_viewD(3)[OF C, of c] by auto
    then have "k \<noteq> i" using present notold by auto
    then have "ns' k = Some v" using kv(1) by (simp add: ns')
    then show ?thesis using kv(2) by blast
  qed
next
  fix k v c assume kv: "ns' k = Some v" and c: "c \<in> set (map fst (gc v))"
  show "\<exists>r. ps' c = Some r \<and> parentNode r = k"
  proof (cases "k = i")
    case True
    have "ns' i = Some n" by (simp add: ns')
    moreover have "ns' i = Some v" using kv unfolding True .
    ultimately have "v = n" by simp
    then have "c \<in> set (map fst (gc n))" using c by simp
    from map_of_rev_keys(1)[OF this] obtain d where "map_of (rev (gc n)) c = Some d" ..
    then show ?thesis using True by (simp add: ps')
  next
    case False
    then have old: "ns k = Some v" using kv by (simp add: ns')
    have "ns' i = Some n" by (simp add: ns')
    then have notn: "c \<notin> set (map fst (gc n))"
      by (rule W2[OF kv _ False c])
    have "c \<notin> set (map fst (gc old))"
      using cons_viewD(2)[OF C old present False c] .
    then have "ps' c = ps c" using map_of_rev_keys(2)[OF notn] by (simp add: ps')
    then show ?thesis using cons_viewD(4)[OF C old c] by simp
  qed
qed

lemma view_delete:
  assumes C: "cons_view ns ps gc"
    and ns': "\<And>k. ns' k = (if k \<in> D then None else ns k)"
    and ps': "\<And>c. ps' c = (if \<exists>k \<in> D. \<exists>v. ns k = Some v \<and> c \<in> set (map fst (gc v)) then None else ps c)"
  shows "cons_view ns' ps' gc"
proof (rule cons_viewI)
  fix k v assume "ns' k = Some v"
  then have "ns k = Some v" by (simp add: ns' split: if_splits)
  then show "distinct (map fst (gc v))" by (rule cons_viewD(1)[OF C])
next
  fix k1 v1 k2 v2 assume "ns' k1 = Some v1" "ns' k2 = Some v2" and ne: "k1 \<noteq> k2"
  then have a: "ns k1 = Some v1" "ns k2 = Some v2" by (simp_all add: ns' split: if_splits)
  show "set (map fst (gc v1)) \<inter> set (map fst (gc v2)) = {}"
    by (rule disjointI') (rule cons_viewD(2)[OF C a ne])
next
  fix c assume p: "ps' c \<noteq> None"
  then have notD: "\<not> (\<exists>k \<in> D. \<exists>v. ns k = Some v \<and> c \<in> set (map fst (gc v)))" and "ps c \<noteq> None"
    by (auto simp: ps' split: if_splits)
  then obtain k v where kv: "ns k = Some v" "c \<in> set (map fst (gc v))"
    using cons_viewD(3)[OF C, of c] by auto
  then have "k \<notin> D" using notD by blast
  then have "ns' k = Some v" using kv(1) by (simp add: ns')
  then show "\<exists>k v. ns' k = Some v \<and> c \<in> set (map fst (gc v))"
    using kv(2) by blast
next
  fix k v c assume kv: "ns' k = Some v" and c: "c \<in> set (map fst (gc v))"
  then have kD: "k \<notin> D" and old: "ns k = Some v" by (simp_all add: ns' split: if_splits)
  have "\<not> (\<exists>k' \<in> D. \<exists>v'. ns k' = Some v' \<and> c \<in> set (map fst (gc v')))"
  proof
    assume "\<exists>k' \<in> D. \<exists>v'. ns k' = Some v' \<and> c \<in> set (map fst (gc v'))"
    then obtain k' v' where k': "k' \<in> D" "ns k' = Some v'" "c \<in> set (map fst (gc v'))" by blast
    then have "k \<noteq> k'" using kD by auto
    from cons_viewD(2)[OF C old k'(2) this c] show False using k'(3) by simp
  qed
  then have "ps' c = ps c" unfolding ps' by (rule if_not_P)
  then show "\<exists>r. ps' c = Some r \<and> parentNode r = k"
    using cons_viewD(4)[OF C old c] by simp
qed


lemma consistent_create:
  assumes "createForest h0 gc = (F, h)"
  shows "consistent h F"
  unfolding consistent_def cons_view_def
  using createForest_result(1,2)[OF assms]
  by (simp add: tryGet_nodesOf tryGetParent_parentsOf)

lemma consistent_later:
  assumes "consistent h F" and "valid h F" and "extends h h'"
  shows "consistent h' F"
proof -
  have "tryGet h' F = tryGet h F" "tryGetParent h' F = tryGetParent h F" "childrenOf h' F = childrenOf h F"
    using extends_nodesOf[OF assms(3,2)] extends_parentsOf[OF assms(3,2)] extends_childrenOf[OF assms(3,2)]
    by (auto simp: tryGet_nodesOf tryGetParent_parentsOf)
  then show ?thesis using assms(1) by (simp add: consistent_def)
qed

lemma wellBehavedD:
  assumes "wellBehaved h F"
  shows "\<And>k v. tryGet h F k = Some v \<Longrightarrow> distinct (map fst (childrenOf h F v))"
    and "\<And>k1 v1 k2 v2 c. tryGet h F k1 = Some v1 \<Longrightarrow> tryGet h F k2 = Some v2 \<Longrightarrow> k1 \<noteq> k2 \<Longrightarrow>
        c \<in> set (map fst (childrenOf h F v1)) \<Longrightarrow> c \<notin> set (map fst (childrenOf h F v2))"
proof -
  show "\<And>k v. tryGet h F k = Some v \<Longrightarrow> distinct (map fst (childrenOf h F v))"
    using assms unfolding wellBehaved_view by blast
  fix k1 v1 k2 v2 c
  assume a: "tryGet h F k1 = Some v1" "tryGet h F k2 = Some v2" "k1 \<noteq> k2"
    and c: "c \<in> set (map fst (childrenOf h F v1))"
  have "set (map fst (childrenOf h F v1)) \<inter> set (map fst (childrenOf h F v2)) = {}"
    using assms a unfolding wellBehaved_view by blast
  then show "c \<notin> set (map fst (childrenOf h F v2))" using c by (rule disjointD')
qed

lemma consistent_add:
  assumes C: "consistent h F" and a: "add h F i n = (Inr G, h')" and W: "wellBehaved h' G"
  shows "consistent h' G"
proof -
  note r = add_Inr[OF a]
  have gc: "childrenOf h' G = childrenOf h F" by (rule r(4))
  show ?thesis
    unfolding consistent_def gc
  proof (rule view_add[where i = i and n = n])
    show "cons_view (tryGet h F) (tryGetParent h F) (childrenOf h F)"
      using C by (simp add: consistent_def)
    show "tryGet h F i = None" by (rule r(1))
    show "\<And>k. tryGet h' G k = (if k = i then Some n else tryGet h F k)"
      by (simp add: tryGet_nodesOf r(2))
    show "\<And>c. tryGetParent h' G c = (case map_of (rev (childrenOf h F n)) c of
                Some d \<Rightarrow> Some \<lparr>parentNode = i, parentData = d\<rparr> | None \<Rightarrow> tryGetParent h F c)"
      by (simp add: tryGetParent_parentsOf r(3) lookup_setAll split: option.splits)
    show "\<And>k v. tryGet h' G k = Some v \<Longrightarrow> distinct (map fst (childrenOf h F v))"
      using wellBehavedD(1)[OF W] unfolding gc .
    show "\<And>k1 v1 k2 v2 c. tryGet h' G k1 = Some v1 \<Longrightarrow> tryGet h' G k2 = Some v2 \<Longrightarrow> k1 \<noteq> k2 \<Longrightarrow>
        c \<in> set (map fst (childrenOf h F v1)) \<Longrightarrow> c \<notin> set (map fst (childrenOf h F v2))"
      using wellBehavedD(2)[OF W] unfolding gc .
  qed
qed

lemma consistent_replace:
  assumes C: "consistent h F" and a: "replace h F i n = (Inr G, h')" and W: "wellBehaved h' G"
  shows "consistent h' G"
proof -
  note r = replace_Inr[OF a]
  obtain old where old: "tryGet h F i = Some old"
    and ps: "parentsOf h' G = setAll i (childrenOf h F n) (dropAll (childrenOf h F old) (parentsOf h F))"
    using r(1) by blast
  have gc: "childrenOf h' G = childrenOf h F" by (rule r(3))
  show ?thesis
    unfolding consistent_def gc
  proof (rule view_replace[where i = i and n = n and old = old])
    show "cons_view (tryGet h F) (tryGetParent h F) (childrenOf h F)"
      using C by (simp add: consistent_def)
    show "tryGet h F i = Some old" by (rule old)
    show "\<And>k. tryGet h' G k = (if k = i then Some n else tryGet h F k)"
      by (simp add: tryGet_nodesOf r(2))
    show "\<And>c. tryGetParent h' G c = (case map_of (rev (childrenOf h F n)) c of
                Some d \<Rightarrow> Some \<lparr>parentNode = i, parentData = d\<rparr>
              | None \<Rightarrow> if c \<in> set (map fst (childrenOf h F old)) then None else tryGetParent h F c)"
      by (simp add: tryGetParent_parentsOf ps lookup_setAll lookup_dropAll split: option.splits)
    show "\<And>k v. tryGet h' G k = Some v \<Longrightarrow> distinct (map fst (childrenOf h F v))"
      using wellBehavedD(1)[OF W] unfolding gc .
    show "\<And>k1 v1 k2 v2 c. tryGet h' G k1 = Some v1 \<Longrightarrow> tryGet h' G k2 = Some v2 \<Longrightarrow> k1 \<noteq> k2 \<Longrightarrow>
        c \<in> set (map fst (childrenOf h F v1)) \<Longrightarrow> c \<notin> set (map fst (childrenOf h F v2))"
      using wellBehavedD(2)[OF W] unfolding gc .
  qed
qed

lemma consistent_deleteAll:
  assumes C: "consistent h F" and a: "deleteAll h F ids dc = (Inr G, h')"
  shows "consistent h' G"
proof -
  obtain D where D: "\<forall>k. tryGet h' G k = (if k \<in> D then None else tryGet h F k)"
      "\<forall>c. tryGetParent h' G c =
              (if c \<in> claimed (childrenOf h F) (nodesOf h F) D then None else tryGetParent h F c)"
    using deleteAll_Inr(1)[OF a] by blast
  have gc: "childrenOf h' G = childrenOf h F" by (rule deleteAll_Inr(2)[OF a])
  have cl: "c \<in> claimed (childrenOf h F) (nodesOf h F) D \<longleftrightarrow>
      (\<exists>k \<in> D. \<exists>v. tryGet h F k = Some v \<and> c \<in> set (map fst (childrenOf h F v)))" for c
    by (simp add: claimed_def tryGet_nodesOf)
  show ?thesis
    unfolding consistent_def gc
  proof (rule view_delete[where D = D])
    show "cons_view (tryGet h F) (tryGetParent h F) (childrenOf h F)"
      using C by (simp add: consistent_def)
    show "\<And>k. tryGet h' G k = (if k \<in> D then None else tryGet h F k)"
      using D(1) by simp
    show "\<And>c. tryGetParent h' G c =
        (if \<exists>k \<in> D. \<exists>v. tryGet h F k = Some v \<and> c \<in> set (map fst (childrenOf h F v)) then None
         else tryGetParent h F c)"
      using D(2) unfolding cl by simp
  qed
qed

lemma consistent_assert:
  assumes "consistent h F"
  shows "assertConsistent h F = Inr ()"
proof -
  note v = cons_viewD[OF assms[unfolded consistent_def]]
  have W: "wellBehaved h F"
    unfolding wellBehaved_view
  proof (intro conjI allI impI)
    fix k v' assume "tryGet h F k = Some v'"
    then show "distinct (map fst (childrenOf h F v'))" by (rule v(1))
  next
    fix k1 v1 k2 v2
    assume "tryGet h F k1 = Some v1 \<and> tryGet h F k2 = Some v2 \<and> k1 \<noteq> k2"
    then have a: "tryGet h F k1 = Some v1" "tryGet h F k2 = Some v2" "k1 \<noteq> k2" by simp_all
    show "set (map fst (childrenOf h F v1)) \<inter> set (map fst (childrenOf h F v2)) = {}"
      by (rule disjointI') (rule v(2)[OF a])
  qed
  then have d: "distinct (claimedChildren h F)" by (simp add: distinct_claimed_iff)
  have par: "\<forall>k v. tryGet h F k = Some v \<longrightarrow>
        (\<forall>c \<in> set (map fst (childrenOf h F v)). \<exists>r. tryGetParent h F c = Some r \<and> parentNode r = k)"
    using v(4) by blast
  have "set (claimedChildren h F) = fset (fmdom (parentsOf h F))"
  proof (intro set_eqI iffI)
    fix c assume "c \<in> set (claimedChildren h F)"
    then obtain k v' where "tryGet h F k = Some v'" "c \<in> set (map fst (childrenOf h F v'))"
      unfolding in_claimedChildren by blast
    from v(4)[OF this] show "c \<in> fset (fmdom (parentsOf h F))"
      by (auto simp: tryGetParent_parentsOf fmlookup_dom_iff)
  next
    fix c assume "c \<in> fset (fmdom (parentsOf h F))"
    then have "tryGetParent h F c \<noteq> None"
      by (simp add: tryGetParent_parentsOf fmlookup_dom_iff)
    from v(3)[OF this] show "c \<in> set (claimedChildren h F)"
      unfolding in_claimedChildren .
  qed
  then have "length (claimedChildren h F) = bt_size (parentsOf h F)"
    using d by (simp add: bt_size_def fcard.rep_eq distinct_card[symmetric])
  then show ?thesis
    unfolding assertConsistent_iff using d par by blast
qed

lemma valid_of_result:
  "add h F i n = (Inr G, h') \<Longrightarrow> valid h' G"
  "replace h F i n = (Inr G, h') \<Longrightarrow> valid h' G"
  "deleteAll h F ids dc = (Inr G, h') \<Longrightarrow> valid h' G"
  by (rule add_Inr(5), assumption, rule replace_Inr(4), assumption, rule deleteAll_Inr(3), assumption)

lemma consistent_same_view:
  assumes "tryGet h' G = tryGet h F" and "tryGetParent h' G = tryGetParent h F"
    and "childrenOf h' G = childrenOf h F"
  shows "consistent h' G = consistent h F"
  by (simp add: consistent_def assms)

lemma mergeWith_prefix_consistent:
  assumes C: "consistent h F" and V: "valid h F"
    and W: "\<forall>j G' h''. mergeWith h F (take j xs) m = (Inr G', h'') \<longrightarrow> wellBehaved h'' G'"
  shows "mergeWith h F (take j xs) m = (Inr G, h') \<Longrightarrow> consistent h' G \<and> valid h' G"
proof (induction j arbitrary: G h')
  case 0
  then have "mergeWith h F [] m = (Inr G, h')" by simp
  then have G: "G = nextRef h"
    and h': "h' = h\<lparr>forests := (forests h)(nextRef h := \<lparr>nodes = nodes (forests h F),
        parents = parents (forests h F), getChildren = getChildren (forests h F)\<rparr>),
        nextRef := Suc (nextRef h)\<rparr>"
    unfolding mergeWith_Nil by auto
  have "consistent h' G = consistent h F"
    by (rule consistent_same_view)
      (auto simp: G h' tryGet_def tryGetParent_def childrenOf_def getN_def getP_def)
  moreover have "valid h' G"
    using V by (simp add: G h' valid_def)
  ultimately show ?case using C by simp
next
  case (Suc j)
  show ?case
  proof (cases "j < length xs")
    case False
    then have "take (Suc j) xs = take j xs" by simp
    then show ?thesis using Suc by simp
  next
    case True
    then have tk: "take (Suc j) xs = take j xs @ [xs ! j]" by (rule take_Suc_conv_app_nth)
    obtain nid node where e: "xs ! j = (nid, node)" by (cases "xs ! j")
    have step: "mergeWith h F (take (Suc j) xs) m = merge_step m (mergeWith h F (take j xs) m) (nid, node)"
      unfolding tk e
      by (simp add: mergeWith_foldl[of h F "take j xs @ [(nid, node)]"] mergeWith_foldl[of h F "take j xs"])
    obtain r1 h1 where pre: "mergeWith h F (take j xs) m = (r1, h1)"
      by (cases "mergeWith h F (take j xs) m")
    obtain G1 where r1: "r1 = Inr G1"
      using Suc.prems step pre by (cases r1) (auto simp: merge_step_def)
    have inv1: "consistent h1 G1" "valid h1 G1"
      using Suc.IH[of G1 h1] pre r1 by simp_all
    have wb: "wellBehaved h' G"
      using W Suc.prems by blast
    show ?thesis
    proof (cases "tryGet h1 G1 nid")
      case None
      then have a: "add h1 G1 nid node = (Inr G, h')"
        using Suc.prems step pre r1 by (simp add: merge_step_def)
      show ?thesis
        using consistent_add[OF inv1(1) a wb] valid_of_result(1)[OF a] by simp
    next
      case (Some old)
      let ?h1 = "h1\<lparr>mergerCalls := mergerCalls h1 @ [(old, node, nid)]\<rparr>"
      obtain merged where mg: "m old node nid = Inr merged"
        using Suc.prems step pre r1 Some
        by (cases "m old node nid") (auto simp: merge_step_def Let_def)
      have a: "replace ?h1 G1 nid merged = (Inr G, h')"
        using Suc.prems step pre r1 Some mg by (simp add: merge_step_def Let_def)
      have "consistent ?h1 G1 = consistent h1 G1"
        by (rule consistent_same_view)
          (auto simp: tryGet_def tryGetParent_def childrenOf_def getN_def getP_def)
      then have c1: "consistent ?h1 G1" using inv1(1) by simp
      show ?thesis
        using consistent_replace[OF c1 a wb] valid_of_result(2)[OF a] by simp
    qed
  qed
qed

lemma consistent_mergeWith:
  assumes "consistent h F" and "valid h F" and "mergeWith h F xs m = (Inr G, h')"
    and "\<forall>j G' h''. mergeWith h F (take j xs) m = (Inr G', h'') \<longrightarrow> wellBehaved h'' G'"
  shows "consistent h' G \<and> valid h' G"
  using mergeWith_prefix_consistent[OF assms(1,2,4), of "length xs" G h'] assms(3) by simp

lemma reachable_invariant:
  "reachable wellBehaved h F \<Longrightarrow> consistent h F \<and> valid h F"
proof (induction rule: reachable.induct)
  case (r_create h0 gc F h)
  show ?case
    using consistent_create[OF r_create] createForest_result(4)[OF r_create] by simp
next
  case (r_later h F h')
  then have c: "consistent h F" and v: "valid h F" by simp_all
  show ?case
    using consistent_later[OF c v r_later(2)] extends_valid[OF r_later(2) v] by simp
next
  case (r_add h F i n G h')
  then have c: "consistent h F" by simp
  show ?case
    using consistent_add[OF c r_add(2,3)] valid_of_result(1)[OF r_add(2)] by simp
next
  case (r_addAll h F xs G h')
  then have c: "consistent h F" and v: "valid h F" by simp_all
  show ?case
    using consistent_mergeWith[OF c v r_addAll(2)[unfolded addAll_def] r_addAll(3)[unfolded addAll_def]] .
next
  case (r_mergeWith h F xs m G h')
  then have c: "consistent h F" and v: "valid h F" by simp_all
  show ?case
    using consistent_mergeWith[OF c v r_mergeWith(2,3)] .
next
  case (r_replace h F i n G h')
  then have c: "consistent h F" by simp
  show ?case
    using consistent_replace[OF c r_replace(2,3)] valid_of_result(2)[OF r_replace(2)] by simp
next
  case (r_delete h F i dc G h')
  then have c: "consistent h F" by simp
  note d = r_delete(2)[unfolded delete_def]
  show ?case
    using consistent_deleteAll[OF c d] valid_of_result(3)[OF d] by simp
next
  case (r_deleteAll h F ids dc G h')
  then have c: "consistent h F" by simp
  show ?case
    using consistent_deleteAll[OF c r_deleteAll(2)] valid_of_result(3)[OF r_deleteAll(2)] by simp
qed


text \<open>
  Claim C1, as amended. \<open>reachable W\<close> holds of the forests obtained from a created
  (empty) forest by \<open>add\<close>, \<open>addAll\<close>, \<open>mergeWith\<close>, \<open>replace\<close>, \<open>delete\<close> and
  \<open>deleteAll\<close>, in a store that may grow in between, where every forest that \<open>add\<close>
  and \<open>replace\<close> return, and every forest that \<open>addAll\<close> and \<open>mergeWith\<close> pass
  through, satisfies \<open>W\<close>. With \<open>W\<close> saying that no id is yielded as a child by two
  different nodes of the forest and that no node yields the same child id twice,
  \<open>assertConsistent\<close> returns on every such forest.
\<close>

theorem reachable_assertConsistent:
  "reachable wellBehaved h F \<Longrightarrow> assertConsistent h F = Inr ()"
proof -
  assume "reachable wellBehaved h F"
  then have "consistent h F" using reachable_invariant by blast
  then show ?thesis by (rule consistent_assert)
qed

text \<open>
  The claim asks only that no id is yielded by two different nodes. A single node that
  yields the child \<open>2\<close> twice satisfies that, and \<open>assertConsistent\<close> throws on the
  forest \<open>add\<close> returns.
\<close>

theorem reachable_repeated_child:
  "reachable noSharedChild store6 5 \<and> assertConsistent store6 5 = Inl MultiParented"
proof -
  have c: "createForest (emptyHeap :: (nat, (nat \<times> nat) list, nat) heap) claimsOwn = (forest0, store0)"
    by (simp add: forest0_def store0_def)
  have r0: "reachable noSharedChild store0 forest0" by (rule r_create[OF c])
  have "fst (add store0 forest0 1 [(2, 10), (2, 20)]) = Inr 5"
    by (simp add: store_defs)
  then have a: "add store0 forest0 1 [(2, 10), (2, 20)] = (Inr 5, store6)"
    unfolding store6_def by (metis prod.collapse)
  have w: "noSharedChild store6 5"
    by (simp add: noSharedChild_def store6_def store_defs childrenOf_def sorted_list_of_fset.rep_eq)
  have r: "reachable noSharedChild store6 5" by (rule r_add[OF r0 a w])
  have f: "assertConsistent store6 5 = Inl MultiParented"
    by (simp add: store6_def store_defs assertConsistent_def sorted_list_of_fset.rep_eq)
  show ?thesis using r f by simp
qed

theorem reachable_assertConsistent_witness:
  "reachable wellBehaved store3 forest3 \<and> assertConsistent store3 forest3 = Inr ()"
proof -
  let ?s2 = "snd (add store1 forest1 2 [(3, 20)])"
  have c: "createForest (emptyHeap :: (nat, (nat \<times> nat) list, nat) heap) claimsOwn = (forest0, store0)"
    by (simp add: forest0_def store0_def)
  have r0: "reachable wellBehaved store0 forest0" by (rule r_create[OF c])
  have "fst (add store0 forest0 1 [(2, 10)]) = Inr forest1"
    by (simp add: forest1_def store_defs)
  then have a1: "add store0 forest0 1 [(2, 10)] = (Inr forest1, store1)"
    unfolding store1_def by (metis prod.collapse)
  have w1: "wellBehaved store1 forest1"
    by (simp add: wellBehaved_def noSharedChild_def noRepeatedChild_def store1_def forest1_def
        store_defs childrenOf_def sorted_list_of_fset.rep_eq)
  have r1: "reachable wellBehaved store1 forest1" by (rule r_add[OF r0 a1 w1])
  have "fst (add store1 forest1 2 [(3, 20)]) = Inr 8"
    by (simp add: store1_def forest1_def store_defs)
  then have a2: "add store1 forest1 2 [(3, 20)] = (Inr 8, ?s2)"
    by (metis prod.collapse)
  have w2: "wellBehaved ?s2 8"
    by (simp add: wellBehaved_def noSharedChild_def noRepeatedChild_def store1_def forest1_def
        store_defs childrenOf_def sorted_list_of_fset.rep_eq)
  have r2: "reachable wellBehaved ?s2 8" by (rule r_add[OF r1 a2 w2])
  have "fst (add ?s2 8 3 []) = Inr forest3"
    by (simp add: forest3_def store1_def forest1_def store_defs)
  then have a3: "add ?s2 8 3 [] = (Inr forest3, store3)"
    unfolding store3_def by (metis prod.collapse)
  have w3: "wellBehaved store3 forest3"
    by (simp add: wellBehaved_def noSharedChild_def noRepeatedChild_def store3_def forest3_def
        store1_def forest1_def store_defs childrenOf_def sorted_list_of_fset.rep_eq)
  have r3: "reachable wellBehaved store3 forest3" by (rule r_add[OF r2 a3 w3])
  show ?thesis using r3 reachable_assertConsistent[OF r3] by simp
qed

end
